theory Spec2Isabelle
  imports Main "HOL-Library.Word"
begin

unbundle bit_operations_syntax

section \<open>The mailbox host driver (drivers/misc/mbox-host.c)\<close>

subsection \<open>Register layout\<close>

type_synonym u8 = "8 word"

definition MBOX_NUM_REGS :: nat where "MBOX_NUM_REGS = 16"
definition MBOX_NUM_DATA_REGS :: nat where "MBOX_NUM_DATA_REGS = 14"

definition MBOX_DATA_0 :: nat where "MBOX_DATA_0 = 0x00"
definition MBOX_STATUS_0 :: nat where "MBOX_STATUS_0 = 0x40"
definition MBOX_STATUS_1 :: nat where "MBOX_STATUS_1 = 0x44"
definition MBOX_BMC_CTRL :: nat where "MBOX_BMC_CTRL = 0x48"
definition MBOX_CTRL_RECV :: u8 where "MBOX_CTRL_RECV = 0x80"
definition MBOX_CTRL_MASK :: u8 where "MBOX_CTRL_MASK = 0x02"
definition MBOX_CTRL_SEND :: u8 where "MBOX_CTRL_SEND = 0x01"
definition MBOX_HOST_CTRL :: nat where "MBOX_HOST_CTRL = 0x4c"
definition MBOX_INTERRUPT_0 :: nat where "MBOX_INTERRUPT_0 = 0x50"
definition MBOX_INTERRUPT_1 :: nat where "MBOX_INTERRUPT_1 = 0x54"

subsection \<open>Errors, events and the state\<close>

text \<open>
  The error codes the driver returns (negated in C). \<open>Errno rc\<close> is a return code of a
  callee that the driver hands on unchanged (\<open>misc_register\<close>, \<open>devm_request_irq\<close>).
\<close>

datatype errno = EFAULT | ERESTARTSYS | EINVAL | ENODEV | ENOMEM | ENXIO | Errno int

datatype irqreturn = IRQ_NONE | IRQ_HANDLED

text \<open>
  Everything the driver does to the outside is recorded, in the order it happens:
  an 8-bit register read with the value it returned, an 8-bit register write
  (data, then offset, as \<open>iowrite8\<close> takes them), a byte stored to or loaded from
  user memory, a \<open>wake_up\<close> of the wait queue, a \<open>poll_wait\<close> registration and an
  \<open>add_timer\<close> with the expiry it arms.
\<close>

datatype event =
    Ioread8 nat u8
  | Iowrite8 u8 nat
  | Put_user u8 nat
  | Get_user nat u8
  | Wake_up
  | Poll_wait
  | Add_timer nat

text \<open>
  \<open>struct mbox_host\<close> together with what it points to: the register window behind
  \<open>base\<close> (byte offset to the byte a read returns), the interrupt number (0: none),
  the poll timer (its expiry in jiffies and whether it is queued), and the surroundings
  the file operations touch: the caller's address space (unmapped addresses fault),
  whether a signal is pending for the caller, the jiffies counter and the event record.
  Addresses, offsets and jiffies are natural numbers: nothing here depends on a pointer
  or a counter wrapping around.
\<close>

record mbox_host =
  mmio :: "nat \<Rightarrow> u8"
  irq :: nat
  poll_timer_expires :: nat
  poll_timer_pending :: bool
  umem :: "nat \<rightharpoonup> u8"
  signal_pending :: bool
  jiffies :: nat
  events :: "event list"

text \<open>
  Kernel facilities whose definitions are outside this driver are parameters:
  the address-range check \<open>access_ok\<close> (address, size), the conversion
  \<open>msecs_to_jiffies\<close> and the control code \<open>MBOX_HOST_IOCTL_ATN\<close> of
  \<open>linux/mbox-host.h\<close>.
\<close>

record kernel =
  access_ok :: "nat \<Rightarrow> nat \<Rightarrow> bool"
  msecs_to_jiffies :: "nat \<Rightarrow> nat"
  MBOX_HOST_IOCTL_ATN :: "32 word"

text \<open>
  Modelled from the spec: the flag by which a readiness query reports "readable", with
  the value \<open>POLLIN\<close> has in the generic poll header.
\<close>

definition POLLIN :: "32 word" where "POLLIN = 0x0001"

subsection \<open>Register access\<close>

text \<open>
  Modelled from the spec: the controller's reaction to an 8-bit write, which is
  hardware and not code. In the control register \<open>RECV\<close> is write-one-to-clear and
  the other bits (\<open>MASK\<close>, \<open>SEND\<close>) take the written value, so that writing \<open>RECV\<close>
  alone clears and unmasks in one step; the two status registers are
  write-one-to-clear; every other offset stores the byte.
\<close>

definition iowrite8 :: "u8 \<Rightarrow> nat \<Rightarrow> (nat \<Rightarrow> u8) \<Rightarrow> (nat \<Rightarrow> u8)" where
  "iowrite8 data addr r =
     (if addr = MBOX_BMC_CTRL
      then r(addr := (data AND NOT MBOX_CTRL_RECV) OR (r addr AND MBOX_CTRL_RECV AND NOT data))
      else if addr = MBOX_STATUS_0 \<or> addr = MBOX_STATUS_1
      then r(addr := r addr AND NOT data)
      else r(addr := data))"

definition mbox_inb :: "mbox_host \<Rightarrow> nat \<Rightarrow> u8 \<times> mbox_host" where
  "mbox_inb s reg = (mmio s reg, s\<lparr>events := events s @ [Ioread8 reg (mmio s reg)]\<rparr>)"

definition mbox_outb :: "mbox_host \<Rightarrow> u8 \<Rightarrow> nat \<Rightarrow> mbox_host" where
  "mbox_outb s data reg =
     s\<lparr>mmio := iowrite8 data reg (mmio s), events := events s @ [Iowrite8 data reg]\<rparr>"

subsection \<open>User memory, wait queue and timer\<close>

text \<open>
  Modelled from the spec: the kernel's user-memory accessors, which are not part of this
  driver. \<open>__put_user\<close> and \<open>__get_user\<close> move one byte and fail (\<open>None\<close>) on an
  address that is not mapped (the buffer is then invalid), leaving everything as it was.
\<close>

definition put_user :: "mbox_host \<Rightarrow> u8 \<Rightarrow> nat \<Rightarrow> mbox_host option" where
  "put_user s x p =
     (case umem s p of
        None \<Rightarrow> None
      | Some old \<Rightarrow> Some (s\<lparr>umem := (umem s)(p \<mapsto> x), events := events s @ [Put_user x p]\<rparr>))"

definition get_user :: "mbox_host \<Rightarrow> nat \<Rightarrow> (u8 \<times> mbox_host) option" where
  "get_user s p =
     (case umem s p of
        None \<Rightarrow> None
      | Some c \<Rightarrow> Some (c, s\<lparr>events := events s @ [Get_user p c]\<rparr>))"

text \<open>
  Modelled from the spec: the wait/notify object and the fallback timer, kernel
  facilities of which the driver only calls the entry points. Waking the queue and
  registering a poller with it are recorded as events; \<open>add_timer\<close> queues the timer
  with the expiry it holds.
\<close>

definition wake_up :: "mbox_host \<Rightarrow> mbox_host" where
  "wake_up s = s\<lparr>events := events s @ [Wake_up]\<rparr>"

definition poll_wait :: "mbox_host \<Rightarrow> mbox_host" where
  "poll_wait s = s\<lparr>events := events s @ [Poll_wait]\<rparr>"

definition add_timer :: "mbox_host \<Rightarrow> mbox_host" where
  "add_timer s =
     s\<lparr>poll_timer_pending := True, events := events s @ [Add_timer (poll_timer_expires s)]\<rparr>"

text \<open>
  Modelled from the spec: what happens to a sleeping reader. It is woken and finds the
  register window and its signal state as the rest of the system (the peer, the
  interrupt handler, the timer, a signal sender) left them.
\<close>

record wake =
  wake_mmio :: "nat \<Rightarrow> u8"
  wake_signal :: bool

definition woken :: "mbox_host \<Rightarrow> wake \<Rightarrow> mbox_host" where
  "woken s w = s\<lparr>mmio := wake_mmio w, signal_pending := wake_signal w\<rparr>"

text \<open>
  Modelled from the spec: \<open>wait_event_interruptible(queue, inb(BMC_CTRL) & RECV)\<close>,
  a macro of the wait-queue header. Each round reads the control register; with \<open>RECV\<close>
  set the wait is over (\<open>False\<close>: not interrupted); otherwise a pending signal aborts
  it (\<open>True\<close>); otherwise the caller sleeps until the next wake. The list holds the
  wakes the sleeper gets, in order; when it is used up the caller is still blocked
  (\<open>None\<close>).
\<close>

fun wait_event_interruptible :: "mbox_host \<Rightarrow> wake list \<Rightarrow> (bool \<times> mbox_host) option" where
  "wait_event_interruptible s ws =
     (case mbox_inb s MBOX_BMC_CTRL of
        (c, s1) \<Rightarrow>
          if c AND MBOX_CTRL_RECV \<noteq> 0 then Some (False, s1)
          else if signal_pending s1 then Some (True, s1)
          else (case ws of
                  [] \<Rightarrow> None
                | w # ws' \<Rightarrow> wait_event_interruptible (woken s1 w) ws'))"

declare wait_event_interruptible.simps [simp del]

subsection \<open>The file operations\<close>

text \<open>
  The drain loop of \<open>mbox_host_read\<close>:
  \<open>for (i = 0; i < MBOX_NUM_DATA_REGS; i++) if (__put_user(inb(DATA_0 + i * 4), p++)) return -EFAULT;\<close>
  It returns the final \<open>p\<close>, or the error.
\<close>

function read_loop :: "mbox_host \<Rightarrow> nat \<Rightarrow> nat \<Rightarrow> (errno + nat) \<times> mbox_host" where
  "read_loop s i p =
     (if i < MBOX_NUM_DATA_REGS
      then (case mbox_inb s (MBOX_DATA_0 + (i * 4)) of
              (x, s1) \<Rightarrow>
                (case put_user s1 x p of
                   None \<Rightarrow> (Inl EFAULT, s1)
                 | Some s2 \<Rightarrow> read_loop s2 (i + 1) (p + 1)))
      else (Inr p, s))"
  by pat_completeness auto
termination
  by (relation "measure (\<lambda>(s, i, p). MBOX_NUM_DATA_REGS - i)") auto

declare read_loop.simps [simp del]

text \<open>
  \<open>mbox_host_read\<close>. \<open>WARN_ON(*ppos)\<close> only logs and is left out. The result is the
  byte count \<open>p - buf\<close> or the error; \<open>None\<close> is a caller that is still blocked when
  the wakes are used up.
\<close>

definition mbox_host_read ::
  "kernel \<Rightarrow> mbox_host \<Rightarrow> nat \<Rightarrow> nat \<Rightarrow> wake list \<Rightarrow> ((errno + nat) \<times> mbox_host) option" where
  "mbox_host_read K s buf count ws =
     (if \<not> access_ok K buf count then Some (Inl EFAULT, s)
      else (case wait_event_interruptible s ws of
              None \<Rightarrow> None
            | Some (interrupted, s1) \<Rightarrow>
                if interrupted then Some (Inl ERESTARTSYS, s1)
                else (case read_loop s1 0 buf of
                        (Inl e, s2) \<Rightarrow> Some (Inl e, s2)
                      | (Inr p, s2) \<Rightarrow>
                          Some (Inr (p - buf), mbox_outb s2 MBOX_CTRL_RECV MBOX_BMC_CTRL))))"

text \<open>
  The fill loop of \<open>mbox_host_write\<close>:
  \<open>for (i = 0; i < MBOX_NUM_DATA_REGS; i++) { if (__get_user(c, p)) return -EFAULT; outb(c, DATA_0 + i * 4); p++; }\<close>
\<close>

function write_loop :: "mbox_host \<Rightarrow> nat \<Rightarrow> nat \<Rightarrow> (errno + nat) \<times> mbox_host" where
  "write_loop s i p =
     (if i < MBOX_NUM_DATA_REGS
      then (case get_user s p of
              None \<Rightarrow> (Inl EFAULT, s)
            | Some (c, s1) \<Rightarrow> write_loop (mbox_outb s1 c (MBOX_DATA_0 + (i * 4))) (i + 1) (p + 1))
      else (Inr p, s))"
  by pat_completeness auto
termination
  by (relation "measure (\<lambda>(s, i, p). MBOX_NUM_DATA_REGS - i)") auto

declare write_loop.simps [simp del]

definition mbox_host_write ::
  "kernel \<Rightarrow> mbox_host \<Rightarrow> nat \<Rightarrow> nat \<Rightarrow> (errno + nat) \<times> mbox_host" where
  "mbox_host_write K s buf count =
     (if \<not> access_ok K buf count then (Inl EFAULT, s)
      else (case write_loop s 0 buf of
              (Inl e, s1) \<Rightarrow> (Inl e, s1)
            | (Inr p, s1) \<Rightarrow> (Inr (p - buf), mbox_outb s1 MBOX_CTRL_SEND MBOX_BMC_CTRL)))"

text \<open>
  \<open>mbox_host_ioctl\<close>: \<open>param\<close> is an \<open>unsigned long\<close> (32 bits on the ARM SoC the
  driver is for), cut to a byte by the call of \<open>mbox_outb\<close>.
\<close>

definition mbox_host_ioctl ::
  "kernel \<Rightarrow> mbox_host \<Rightarrow> 32 word \<Rightarrow> 32 word \<Rightarrow> (errno + nat) \<times> mbox_host" where
  "mbox_host_ioctl K s cmd param =
     (if cmd = MBOX_HOST_IOCTL_ATN K
      then (Inr 0, mbox_outb s (ucast param) (MBOX_DATA_0 + 15))
      else (Inl EINVAL, s))"

definition mbox_host_poll :: "mbox_host \<Rightarrow> 32 word \<times> mbox_host" where
  "mbox_host_poll s =
     (case mbox_inb (poll_wait s) MBOX_BMC_CTRL of
        (c, s1) \<Rightarrow> ((if c AND MBOX_CTRL_RECV \<noteq> 0 then 0 OR POLLIN else 0), s1))"

subsection \<open>The notification sources\<close>

definition poll_timer :: "kernel \<Rightarrow> mbox_host \<Rightarrow> mbox_host" where
  "poll_timer K s =
     add_timer (wake_up (s\<lparr>poll_timer_expires := poll_timer_expires s + msecs_to_jiffies K 500\<rparr>))"

definition mbox_host_irq :: "mbox_host \<Rightarrow> irqreturn \<times> mbox_host" where
  "mbox_host_irq s =
     (case mbox_inb s MBOX_BMC_CTRL of
        (c, s1) \<Rightarrow>
          if \<not> (c AND MBOX_CTRL_RECV \<noteq> 0) then (IRQ_NONE, s1)
          else (IRQ_HANDLED, wake_up (mbox_outb s1 MBOX_CTRL_MASK MBOX_BMC_CTRL)))"

subsection \<open>Attach\<close>

text \<open>
  What the platform answers during \<open>mbox_host_probe\<close>: whether the device and its
  device-tree node exist, whether the allocation, the memory resource and the mapping
  succeed, the return code of \<open>misc_register\<close>, the interrupt number
  \<open>irq_of_parse_and_map\<close> finds (0: none) and the return code of \<open>devm_request_irq\<close>.
\<close>

record platform_device =
  pdev_present :: bool
  of_node_present :: bool
  kzalloc_ok :: bool
  mem_resource :: bool
  ioremap_ok :: bool
  misc_register_rc :: int
  of_irq :: nat
  request_irq_rc :: int

definition mbox_host_config_irq :: "platform_device \<Rightarrow> mbox_host \<Rightarrow> errno option \<times> mbox_host" where
  "mbox_host_config_irq pdev s =
     (let s1 = s\<lparr>irq := of_irq pdev\<rparr> in
      if irq s1 = 0 then (Some ENODEV, s1)
      else if request_irq_rc pdev < 0 then (Some (Errno (request_irq_rc pdev)), s1\<lparr>irq := 0\<rparr>)
      else
        (let s2 = mbox_outb s1 0x00 MBOX_INTERRUPT_0;
             s3 = mbox_outb s2 0x00 MBOX_INTERRUPT_1;
             s4 = mbox_outb s3 0xff MBOX_STATUS_0;
             s5 = mbox_outb s4 0xff MBOX_STATUS_1
         in (None, mbox_outb s5 MBOX_CTRL_RECV MBOX_BMC_CTRL)))"


section \<open>Vocabulary of the properties\<close>

text \<open>
  A register write that clears \<open>RECV\<close>: a write to the control register with the
  \<open>RECV\<close> bit set in the data. \<open>recv_clears\<close> counts them in an event record.
\<close>

fun clears_recv :: "event \<Rightarrow> bool" where
  "clears_recv (Iowrite8 d a) = (a = MBOX_BMC_CTRL \<and> d AND MBOX_CTRL_RECV \<noteq> 0)"
| "clears_recv e = False"

definition recv_clears :: "event list \<Rightarrow> nat" where
  "recv_clears es = length (filter clears_recv es)"

text \<open>
  The offset of data register \<open>n\<close>, as the loops of read and write compute it. Draining the
  slots \<open>i..<k\<close> of the window \<open>r\<close> into the buffer at \<open>buf\<close> gives, per slot in ascending
  order, the register read and the byte stored at \<open>buf + n\<close>; filling the slots \<open>i..<k\<close>
  from the buffer gives the byte loaded from \<open>buf + n\<close> and its register write.
  \<open>drained_umem\<close> and \<open>filled_mmio\<close> are the user memory and the register window after
  that.
\<close>

definition slot :: "nat \<Rightarrow> nat" where
  "slot n = MBOX_DATA_0 + (n * 4)"

definition drain_events :: "(nat \<Rightarrow> u8) \<Rightarrow> nat \<Rightarrow> nat \<Rightarrow> nat \<Rightarrow> event list" where
  "drain_events r buf i k =
     concat (map (\<lambda>n. [Ioread8 (slot n) (r (slot n)), Put_user (r (slot n)) (buf + n)]) [i..<k])"

definition drained_umem :: "(nat \<rightharpoonup> u8) \<Rightarrow> (nat \<Rightarrow> u8) \<Rightarrow> nat \<Rightarrow> nat \<Rightarrow> nat \<Rightarrow> (nat \<rightharpoonup> u8)" where
  "drained_umem um r buf i k =
     (\<lambda>a. if buf + i \<le> a \<and> a < buf + k then Some (r (slot (a - buf))) else um a)"

definition fill_events :: "(nat \<rightharpoonup> u8) \<Rightarrow> nat \<Rightarrow> nat \<Rightarrow> nat \<Rightarrow> event list" where
  "fill_events um buf i k =
     concat (map (\<lambda>n. [Get_user (buf + n) (the (um (buf + n))),
                        Iowrite8 (the (um (buf + n))) (slot n)]) [i..<k])"

definition filled_mmio :: "(nat \<Rightarrow> u8) \<Rightarrow> (nat \<rightharpoonup> u8) \<Rightarrow> nat \<Rightarrow> nat \<Rightarrow> nat \<Rightarrow> (nat \<Rightarrow> u8)" where
  "filled_mmio r um buf i k =
     (\<lambda>a. if a \<in> slot ` {i..<k} then the (um (buf + a div 4)) else r a)"

text \<open>
  \<open>RECV\<close> reads set in a register window; a wake that finds neither \<open>RECV\<close> set nor a
  signal pending (a spurious wake); the event of a read of the control register.
\<close>

definition recv_ready :: "(nat \<Rightarrow> u8) \<Rightarrow> bool" where
  "recv_ready r = (r MBOX_BMC_CTRL AND MBOX_CTRL_RECV \<noteq> 0)"

definition idle_wake :: "wake \<Rightarrow> bool" where
  "idle_wake w = (\<not> recv_ready (wake_mmio w) \<and> \<not> wake_signal w)"

definition ctrl_read :: "(nat \<Rightarrow> u8) \<Rightarrow> event" where
  "ctrl_read r = Ioread8 MBOX_BMC_CTRL (r MBOX_BMC_CTRL)"

text \<open>
  A concrete setting for the worked instances: a kernel that accepts ranges below
  \<open>0x1000\<close>, runs at 100 jiffies per second and numbers the attention control code 1;
  a machine state with no interrupt and an idle timer, whose caller has the addresses
  below \<open>0x100\<close> mapped (each holding 0) and whose registers read zero; a register window in which a frame is ready
  (\<open>RECV\<close> set, every other offset reading its own number); and three wakes: one that
  finds nothing, one that finds that frame, one that finds a signal.
\<close>

definition ex_kernel :: kernel where
  "ex_kernel = \<lparr>access_ok = (\<lambda>a n. a + n \<le> 0x1000), msecs_to_jiffies = (\<lambda>m. m div 10),
                 MBOX_HOST_IOCTL_ATN = 1\<rparr>"

definition ex_host :: mbox_host where
  "ex_host = \<lparr>mmio = (\<lambda>a. 0), irq = 0, poll_timer_expires = 0, poll_timer_pending = False,
               umem = (\<lambda>a. if a < 0x100 then Some 0 else None), signal_pending = False,
               jiffies = 1000, events = []\<rparr>"

definition ex_frame :: "nat \<Rightarrow> u8" where
  "ex_frame = (\<lambda>a. if a = MBOX_BMC_CTRL then MBOX_CTRL_RECV else of_nat a)"

definition ex_idle :: wake where
  "ex_idle = \<lparr>wake_mmio = (\<lambda>a. 0), wake_signal = False\<rparr>"

definition ex_delivery :: wake where
  "ex_delivery = \<lparr>wake_mmio = ex_frame, wake_signal = False\<rparr>"

definition ex_signal :: wake where
  "ex_signal = \<lparr>wake_mmio = (\<lambda>a. 0), wake_signal = True\<rparr>"

text \<open>
  Projections of an event record, each in order: the bytes stored to user memory
  (address, byte), the register writes (offset, data) and the register reads
  (offset, value).
\<close>

fun stores :: "event list \<Rightarrow> (nat \<times> u8) list" where
  "stores [] = []"
| "stores (Put_user x a # es) = (a, x) # stores es"
| "stores (e # es) = stores es"

fun reg_writes :: "event list \<Rightarrow> (nat \<times> u8) list" where
  "reg_writes [] = []"
| "reg_writes (Iowrite8 d a # es) = (a, d) # reg_writes es"
| "reg_writes (e # es) = reg_writes es"

fun reg_reads :: "event list \<Rightarrow> (nat \<times> u8) list" where
  "reg_reads [] = []"
| "reg_reads (Ioread8 a v # es) = (a, v) # reg_reads es"
| "reg_reads (e # es) = reg_reads es"

text \<open>
  Modelled from the spec: the simulated peer delivery, which asserts \<open>RECV\<close> in the
  control register and leaves every other register, the data registers among them, as
  it is.
\<close>

definition peer_deliver :: "mbox_host \<Rightarrow> mbox_host" where
  "peer_deliver s = s\<lparr>mmio := (mmio s)(MBOX_BMC_CTRL := mmio s MBOX_BMC_CTRL OR MBOX_CTRL_RECV)\<rparr>"

text \<open>
  A caller whose mapped bytes each hold the low byte of their address, and the frame
  that lies at 16 in it.
\<close>

definition ex_sender :: mbox_host where
  "ex_sender = ex_host\<lparr>umem := (\<lambda>a. if a < 0x100 then Some (of_nat a) else None)\<rparr>"

definition ex_bytes :: "u8 list" where
  "ex_bytes = [16, 17, 18, 19, 20, 21, 22, 23, 24, 25, 26, 27, 28, 29]"







text \<open>A platform device with interrupt 5, and the same without an interrupt.\<close>

definition ex_pdev :: platform_device where
  "ex_pdev = \<lparr>pdev_present = True, of_node_present = True, kzalloc_ok = True,
               mem_resource = True, ioremap_ok = True, misc_register_rc = 0,
               of_irq = 5, request_irq_rc = 0\<rparr>"


section \<open>Auxiliary facts\<close>

lemmas mbox_consts =
  MBOX_NUM_REGS_def MBOX_NUM_DATA_REGS_def MBOX_DATA_0_def MBOX_STATUS_0_def
  MBOX_STATUS_1_def MBOX_BMC_CTRL_def MBOX_CTRL_RECV_def MBOX_CTRL_MASK_def
  MBOX_CTRL_SEND_def MBOX_HOST_CTRL_def MBOX_INTERRUPT_0_def MBOX_INTERRUPT_1_def

lemma recv_clears_append [simp]: "recv_clears (xs @ ys) = recv_clears xs + recv_clears ys"
  by (simp add: recv_clears_def)

lemma recv_clears_Nil [simp]: "recv_clears [] = 0"
  by (simp add: recv_clears_def)

lemma recv_clears_Cons [simp]:
  "recv_clears (e # es) = (if clears_recv e then 1 else 0) + recv_clears es"
  by (simp add: recv_clears_def)

lemma mask_not_recv: "MBOX_CTRL_MASK AND MBOX_CTRL_RECV = 0"
  by (simp add: mbox_consts)

lemma iowrite8_ctrl_recv:
  "iowrite8 d MBOX_BMC_CTRL r MBOX_BMC_CTRL AND MBOX_CTRL_RECV = r MBOX_BMC_CTRL AND MBOX_CTRL_RECV AND NOT d"
  unfolding iowrite8_def by (simp add: bit_eq_iff bit_simps) blast

lemma iowrite8_mask_keeps_recv:
  "iowrite8 MBOX_CTRL_MASK MBOX_BMC_CTRL r MBOX_BMC_CTRL AND MBOX_CTRL_RECV = r MBOX_BMC_CTRL AND MBOX_CTRL_RECV"
  unfolding iowrite8_ctrl_recv by (simp add: mbox_consts bit_eq_iff bit_simps)

lemma iowrite8_recv_clears:
  "iowrite8 MBOX_CTRL_RECV MBOX_BMC_CTRL r MBOX_BMC_CTRL = 0"
  unfolding iowrite8_def by (simp add: mbox_consts bit_eq_iff bit_simps)

lemma iowrite8_other:
  "a \<noteq> b \<Longrightarrow> iowrite8 d a r b = r b"
  by (simp add: iowrite8_def)

lemma iowrite8_data:
  "a < MBOX_STATUS_0 \<Longrightarrow> iowrite8 d a r = r(a := d)"
  by (simp add: iowrite8_def mbox_consts)

lemma mbox_host_irq_eq:
  "mbox_host_irq s =
     (if mmio s MBOX_BMC_CTRL AND MBOX_CTRL_RECV = 0
      then (IRQ_NONE, s\<lparr>events := events s @ [Ioread8 MBOX_BMC_CTRL (mmio s MBOX_BMC_CTRL)]\<rparr>)
      else (IRQ_HANDLED,
            s\<lparr>mmio := iowrite8 MBOX_CTRL_MASK MBOX_BMC_CTRL (mmio s),
              events := events s @ [Ioread8 MBOX_BMC_CTRL (mmio s MBOX_BMC_CTRL),
                                    Iowrite8 MBOX_CTRL_MASK MBOX_BMC_CTRL, Wake_up]\<rparr>))"
  by (simp add: mbox_host_irq_def mbox_inb_def mbox_outb_def wake_up_def)

lemma mbox_host_ioctl_eq:
  "mbox_host_ioctl K s cmd param =
     (if cmd = MBOX_HOST_IOCTL_ATN K
      then (Inr 0, s\<lparr>mmio := (mmio s)(15 := ucast param),
                     events := events s @ [Iowrite8 (ucast param) 15]\<rparr>)
      else (Inl EINVAL, s))"
  by (simp add: mbox_host_ioctl_def mbox_outb_def iowrite8_def mbox_consts)

lemma drain_events_empty [simp]: "drain_events r buf i i = []"
  by (simp add: drain_events_def)

lemma drain_events_step:
  "i < k \<Longrightarrow> drain_events r buf i k =
     [Ioread8 (slot i) (r (slot i)), Put_user (r (slot i)) (buf + i)] @ drain_events r buf (i + 1) k"
  by (simp add: drain_events_def upt_conv_Cons)

lemma drained_umem_empty [simp]: "drained_umem um r buf i i = um"
  by (rule ext) (auto simp add: drained_umem_def)

lemma drained_umem_step:
  "i < k \<Longrightarrow> drained_umem (um(buf + i \<mapsto> r (slot i))) r buf (i + 1) k = drained_umem um r buf i k"
  by (rule ext) (auto simp: drained_umem_def le_Suc_eq)

lemma read_loop_run:
  assumes "i \<le> k" and "k \<le> MBOX_NUM_DATA_REGS"
    and "\<forall>n. i \<le> n \<and> n < k \<longrightarrow> umem s (buf + n) \<noteq> None"
    and "k < MBOX_NUM_DATA_REGS \<longrightarrow> umem s (buf + k) = None"
  shows "read_loop s i (buf + i) =
     ((if k < MBOX_NUM_DATA_REGS then Inl EFAULT else Inr (buf + k)),
      s\<lparr>umem := drained_umem (umem s) (mmio s) buf i k,
        events := events s @ drain_events (mmio s) buf i k @
          (if k < MBOX_NUM_DATA_REGS then [Ioread8 (slot k) (mmio s (slot k))] else [])\<rparr>)"
  using assms
proof (induction "k - i" arbitrary: s i)
  case 0
  then have ki: "k = i" by simp
  show ?case
  proof (cases "k < MBOX_NUM_DATA_REGS")
    case True
    with 0 ki show ?thesis
      by (subst read_loop.simps) (simp add: mbox_inb_def put_user_def slot_def)
  next
    case False
    with 0 ki show ?thesis
      by (subst read_loop.simps) simp
  qed
next
  case (Suc d)
  then have lt: "i < k" and i14: "i < MBOX_NUM_DATA_REGS" by auto
  from Suc.prems lt have "umem s (buf + i) \<noteq> None" by blast
  then obtain old where old: "umem s (buf + i) = Some old" by auto
  define x where "x = mmio s (slot i)"
  define s2 where "s2 = s\<lparr>umem := (umem s)(buf + i \<mapsto> x),
     events := events s @ [Ioread8 (slot i) x, Put_user x (buf + i)]\<rparr>"
  have step: "read_loop s i (buf + i) = read_loop s2 (i + 1) (buf + (i + 1))"
    using i14 old by (subst read_loop.simps) (simp add: mbox_inb_def put_user_def slot_def s2_def x_def)
  have a1: "\<forall>n. i + 1 \<le> n \<and> n < k \<longrightarrow> umem s2 (buf + n) \<noteq> None"
    using Suc.prems(3) by (simp add: s2_def)
  have a2: "k < MBOX_NUM_DATA_REGS \<longrightarrow> umem s2 (buf + k) = None"
    using Suc.prems(4) lt by (simp add: s2_def)
  have ih: "read_loop s2 (i + 1) (buf + (i + 1)) =
     ((if k < MBOX_NUM_DATA_REGS then Inl EFAULT else Inr (buf + k)),
      s2\<lparr>umem := drained_umem (umem s2) (mmio s2) buf (i + 1) k,
        events := events s2 @ drain_events (mmio s2) buf (i + 1) k @
          (if k < MBOX_NUM_DATA_REGS then [Ioread8 (slot k) (mmio s2 (slot k))] else [])\<rparr>)"
    using Suc.hyps(2) lt Suc.prems(2) a1 a2 by (intro Suc.hyps(1)) simp_all
  have m2: "mmio s2 = mmio s" by (simp add: s2_def)
  have u2: "drained_umem (umem s2) (mmio s) buf (i + 1) k = drained_umem (umem s) (mmio s) buf i k"
    using drained_umem_step [OF lt] by (simp add: s2_def x_def)
  have e2: "events s2 @ drain_events (mmio s) buf (i + 1) k = events s @ drain_events (mmio s) buf i k"
    using drain_events_step [OF lt] by (simp add: s2_def x_def)
  show ?case
    unfolding step ih m2 u2 using e2 by (simp add: s2_def)
qed

lemma slot_lt_status: "i < MBOX_NUM_DATA_REGS \<Longrightarrow> slot i < MBOX_STATUS_0"
  by (simp add: slot_def mbox_consts)

lemma slot_neq_ctrl: "i < MBOX_NUM_DATA_REGS \<Longrightarrow> slot i \<noteq> MBOX_BMC_CTRL"
  by (simp add: slot_def mbox_consts)

lemma slot_inj: "slot m = slot n \<longleftrightarrow> m = n"
  by (simp add: slot_def)

lemma slot_div: "slot n div 4 = n"
  by (simp add: slot_def mbox_consts)

lemma read_loop_recv_clears:
  "recv_clears (events (snd (read_loop s i p))) = recv_clears (events s)"
proof (induction s i p rule: read_loop.induct)
  case (1 s i p)
  show ?case
  proof (cases "i < MBOX_NUM_DATA_REGS")
    case False
    then show ?thesis by (subst read_loop.simps) simp
  next
    case True
    show ?thesis
    proof (cases "umem s p")
      case None
      with True show ?thesis
        by (subst read_loop.simps) (simp add: mbox_inb_def put_user_def)
    next
      case (Some old)
      define s1 where "s1 = snd (mbox_inb s (MBOX_DATA_0 + (i * 4)))"
      define x where "x = fst (mbox_inb s (MBOX_DATA_0 + (i * 4)))"
      define s2 where "s2 = the (put_user s1 x p)"
      have p: "put_user s1 x p = Some s2"
        using Some by (simp add: s2_def s1_def put_user_def mbox_inb_def)
      have "recv_clears (events (snd (read_loop s2 (i + 1) (p + 1)))) = recv_clears (events s2)"
        using True p by (intro "1.IH"[of x s1 s2]) (simp_all add: x_def s1_def)
      moreover have "recv_clears (events s2) = recv_clears (events s)"
        using Some by (simp add: s2_def s1_def put_user_def mbox_inb_def)
      moreover have "read_loop s i p = read_loop s2 (i + 1) (p + 1)"
        using True p by (subst read_loop.simps) (auto simp add: x_def s1_def split: prod.splits)
      ultimately show ?thesis by simp
    qed
  qed
qed

lemma write_loop_recv_clears:
  "recv_clears (events (snd (write_loop s i p))) = recv_clears (events s)"
proof (induction s i p rule: write_loop.induct)
  case (1 s i p)
  show ?case
  proof (cases "i < MBOX_NUM_DATA_REGS")
    case False
    then show ?thesis by (subst write_loop.simps) simp
  next
    case True
    show ?thesis
    proof (cases "umem s p")
      case None
      with True show ?thesis
        by (subst write_loop.simps) (simp add: get_user_def)
    next
      case (Some c)
      define s1 where "s1 = s\<lparr>events := events s @ [Get_user p c]\<rparr>"
      define s2 where "s2 = mbox_outb s1 c (MBOX_DATA_0 + (i * 4))"
      have g: "get_user s p = Some (c, s1)"
        using Some by (simp add: get_user_def s1_def)
      have "recv_clears (events (snd (write_loop s2 (i + 1) (p + 1)))) = recv_clears (events s2)"
        unfolding s2_def using True g by (intro "1.IH"[of "(c, s1)" c s1]) simp_all
      moreover have "recv_clears (events s2) = recv_clears (events s)"
        using True slot_neq_ctrl[of i] by (simp add: s2_def s1_def mbox_outb_def slot_def)
      moreover have "write_loop s i p = write_loop s2 (i + 1) (p + 1)"
        using True g by (subst write_loop.simps) (simp add: s2_def)
      ultimately show ?thesis by simp
    qed
  qed
qed

lemma wait_recv_clears:
  "wait_event_interruptible s ws = Some (b, s') \<Longrightarrow> recv_clears (events s') = recv_clears (events s)"
proof (induction s ws rule: wait_event_interruptible.induct)
  case (1 s ws)
  define s1 where "s1 = s\<lparr>events := events s @ [Ioread8 MBOX_BMC_CTRL (mmio s MBOX_BMC_CTRL)]\<rparr>"
  have inb: "mbox_inb s MBOX_BMC_CTRL = (mmio s MBOX_BMC_CTRL, s1)"
    by (simp add: mbox_inb_def s1_def)
  have e1: "recv_clears (events s1) = recv_clears (events s)"
    by (simp add: s1_def)
  show ?case
  proof (cases "mmio s MBOX_BMC_CTRL AND MBOX_CTRL_RECV \<noteq> 0 \<or> signal_pending s1")
    case True
    with "1.prems" inb e1 show ?thesis
      by (subst (asm) wait_event_interruptible.simps) (auto split: if_splits)
  next
    case False
    show ?thesis
    proof (cases ws)
      case Nil
      with False "1.prems" inb show ?thesis
        by (subst (asm) wait_event_interruptible.simps) (auto split: if_splits)
    next
      case (Cons w ws')
      with False "1.prems" inb have "wait_event_interruptible (woken s1 w) ws' = Some (b, s')"
        by (subst (asm) wait_event_interruptible.simps) (auto split: if_splits)
      then have "recv_clears (events s') = recv_clears (events (woken s1 w))"
        using False Cons inb by (intro "1.IH"[of "mmio s MBOX_BMC_CTRL" s1 w ws']) auto
      with e1 show ?thesis by (simp add: woken_def)
    qed
  qed
qed

lemma fill_events_empty [simp]: "fill_events um buf i i = []"
  by (simp add: fill_events_def)

lemma fill_events_step:
  "i < k \<Longrightarrow> fill_events um buf i k =
     [Get_user (buf + i) (the (um (buf + i))), Iowrite8 (the (um (buf + i))) (slot i)]
       @ fill_events um buf (i + 1) k"
  by (simp add: fill_events_def upt_conv_Cons)

lemma filled_mmio_empty [simp]: "filled_mmio r um buf i i = r"
  by (rule ext) (simp add: filled_mmio_def)

lemma filled_mmio_step:
  assumes lt: "i < k"
  shows "filled_mmio (r(slot i := the (um (buf + i)))) um buf (i + 1) k = filled_mmio r um buf i k"
proof (rule ext)
  fix a
  have split: "a \<in> slot ` {i..<k} \<longleftrightarrow> a = slot i \<or> a \<in> slot ` {i + 1..<k}"
    using lt by (auto simp: slot_inj le_Suc_eq Suc_le_eq)
  have "a = slot i \<Longrightarrow> a \<notin> slot ` {i + 1..<k}"
    by (auto simp: slot_inj)
  with split show "filled_mmio (r(slot i := the (um (buf + i)))) um buf (i + 1) k a
      = filled_mmio r um buf i k a"
    by (auto simp: filled_mmio_def slot_div)
qed

lemma write_loop_run:
  assumes "i \<le> k" and "k \<le> MBOX_NUM_DATA_REGS"
    and "\<forall>n. i \<le> n \<and> n < k \<longrightarrow> umem s (buf + n) \<noteq> None"
    and "k < MBOX_NUM_DATA_REGS \<longrightarrow> umem s (buf + k) = None"
  shows "write_loop s i (buf + i) =
     ((if k < MBOX_NUM_DATA_REGS then Inl EFAULT else Inr (buf + k)),
      s\<lparr>mmio := filled_mmio (mmio s) (umem s) buf i k,
        events := events s @ fill_events (umem s) buf i k\<rparr>)"
  using assms
proof (induction "k - i" arbitrary: s i)
  case 0
  then have ki: "k = i" by simp
  show ?case
  proof (cases "k < MBOX_NUM_DATA_REGS")
    case True
    with 0 ki show ?thesis
      by (subst write_loop.simps) (simp add: get_user_def)
  next
    case False
    with 0 ki show ?thesis
      by (subst write_loop.simps) simp
  qed
next
  case (Suc d)
  then have lt: "i < k" and i14: "i < MBOX_NUM_DATA_REGS" by auto
  from Suc.prems lt have "umem s (buf + i) \<noteq> None" by blast
  then obtain c where c: "umem s (buf + i) = Some c" by auto
  define s2 where "s2 = s\<lparr>mmio := (mmio s)(slot i := c),
     events := events s @ [Get_user (buf + i) c, Iowrite8 c (slot i)]\<rparr>"
  have step: "write_loop s i (buf + i) = write_loop s2 (i + 1) (buf + (i + 1))"
    using i14 c slot_lt_status[OF i14]
    by (subst write_loop.simps)
       (simp add: get_user_def mbox_outb_def iowrite8_data s2_def slot_def)
  have u2: "umem s2 = umem s" by (simp add: s2_def)
  have a1: "\<forall>n. i + 1 \<le> n \<and> n < k \<longrightarrow> umem s2 (buf + n) \<noteq> None"
    using Suc.prems(3) by (simp add: s2_def)
  have a2: "k < MBOX_NUM_DATA_REGS \<longrightarrow> umem s2 (buf + k) = None"
    using Suc.prems(4) by (simp add: s2_def)
  have ih: "write_loop s2 (i + 1) (buf + (i + 1)) =
     ((if k < MBOX_NUM_DATA_REGS then Inl EFAULT else Inr (buf + k)),
      s2\<lparr>mmio := filled_mmio (mmio s2) (umem s2) buf (i + 1) k,
        events := events s2 @ fill_events (umem s2) buf (i + 1) k\<rparr>)"
    using Suc.hyps(2) lt Suc.prems(2) a1 a2 by (intro Suc.hyps(1)) simp_all
  have m2: "filled_mmio (mmio s2) (umem s) buf (i + 1) k = filled_mmio (mmio s) (umem s) buf i k"
    using filled_mmio_step [OF lt, of "mmio s" "umem s" buf] c by (simp add: s2_def)
  have e2: "events s2 @ fill_events (umem s) buf (i + 1) k = events s @ fill_events (umem s) buf i k"
    using fill_events_step [OF lt, of "umem s" buf] c by (simp add: s2_def)
  show ?case
    unfolding step ih u2 m2 using e2 by (simp add: s2_def)
qed

lemma wait_ready:
  "recv_ready (mmio s) \<Longrightarrow>
   wait_event_interruptible s ws = Some (False, s\<lparr>events := events s @ [ctrl_read (mmio s)]\<rparr>)"
  by (subst wait_event_interruptible.simps) (simp add: mbox_inb_def recv_ready_def ctrl_read_def)

lemma wait_signal:
  "\<not> recv_ready (mmio s) \<Longrightarrow> signal_pending s \<Longrightarrow>
   wait_event_interruptible s ws = Some (True, s\<lparr>events := events s @ [ctrl_read (mmio s)]\<rparr>)"
  by (subst wait_event_interruptible.simps) (simp add: mbox_inb_def recv_ready_def ctrl_read_def)

lemma wait_sleep_Nil:
  "\<not> recv_ready (mmio s) \<Longrightarrow> \<not> signal_pending s \<Longrightarrow> wait_event_interruptible s [] = None"
  by (subst wait_event_interruptible.simps) (simp add: mbox_inb_def recv_ready_def)

lemma wait_sleep_Cons:
  "\<not> recv_ready (mmio s) \<Longrightarrow> \<not> signal_pending s \<Longrightarrow>
   wait_event_interruptible s (w # ws) =
     wait_event_interruptible
       (s\<lparr>mmio := wake_mmio w, signal_pending := wake_signal w,
          events := events s @ [ctrl_read (mmio s)]\<rparr>) ws"
  by (subst wait_event_interruptible.simps, cases s)
     (simp add: mbox_inb_def recv_ready_def ctrl_read_def woken_def)

lemma wait_all_idle:
  "\<not> recv_ready (mmio s) \<Longrightarrow> \<not> signal_pending s \<Longrightarrow> list_all idle_wake ws \<Longrightarrow>
   wait_event_interruptible s ws = None"
proof (induction ws arbitrary: s)
  case Nil
  then show ?case by (simp add: wait_sleep_Nil)
next
  case (Cons w ws)
  define t where "t = s\<lparr>mmio := wake_mmio w, signal_pending := wake_signal w,
          events := events s @ [ctrl_read (mmio s)]\<rparr>"
  from Cons.prems have "idle_wake w" and "list_all idle_wake ws"
    by simp_all
  then have "\<not> recv_ready (mmio t)" "\<not> signal_pending t" "list_all idle_wake ws"
    by (simp_all add: t_def idle_wake_def)
  then have "wait_event_interruptible t ws = None"
    by (rule Cons.IH)
  with Cons.prems(1,2) show ?case
    by (simp add: wait_sleep_Cons t_def)
qed

lemma wait_after_idle:
  "\<not> recv_ready (mmio s) \<Longrightarrow> \<not> signal_pending s \<Longrightarrow> list_all idle_wake ws \<Longrightarrow>
   wait_event_interruptible s (ws @ w # rest) =
     wait_event_interruptible
       (s\<lparr>mmio := wake_mmio w, signal_pending := wake_signal w,
          events := events s @ map ctrl_read (mmio s # map wake_mmio ws)\<rparr>) rest"
proof (induction ws arbitrary: s)
  case Nil
  then show ?case by (simp add: wait_sleep_Cons)
next
  case (Cons v vs)
  define t where "t = s\<lparr>mmio := wake_mmio v, signal_pending := wake_signal v,
          events := events s @ [ctrl_read (mmio s)]\<rparr>"
  from Cons.prems have "idle_wake v" and "list_all idle_wake vs"
    by simp_all
  then have "\<not> recv_ready (mmio t)" "\<not> signal_pending t" "list_all idle_wake vs"
    by (simp_all add: t_def idle_wake_def)
  then have "wait_event_interruptible t (vs @ w # rest) =
     wait_event_interruptible
       (t\<lparr>mmio := wake_mmio w, signal_pending := wake_signal w,
          events := events t @ map ctrl_read (mmio t # map wake_mmio vs)\<rparr>) rest"
    by (rule Cons.IH)
  with Cons.prems show ?case
    by (simp add: wait_sleep_Cons t_def)
qed

lemma wait_events:
  "wait_event_interruptible s ws = Some (b, s') \<Longrightarrow>
   \<exists>rs. s' = s\<lparr>mmio := mmio s', signal_pending := signal_pending s',
                 events := events s @ map ctrl_read rs\<rparr>
        \<and> (b \<longleftrightarrow> \<not> recv_ready (mmio s'))"
proof (induction ws arbitrary: s)
  case Nil
  show ?case
  proof (cases "recv_ready (mmio s)")
    case True
    with Nil wait_ready[OF True, of "[]"] show ?thesis
      by (intro exI[of _ "[mmio s]"]) auto
  next
    case nr: False
    show ?thesis
    proof (cases "signal_pending s")
      case True
      with Nil wait_signal[OF nr True, of "[]"] nr show ?thesis
        by (intro exI[of _ "[mmio s]"]) auto
    next
      case False
      with Nil nr show ?thesis by (simp add: wait_sleep_Nil)
    qed
  qed
next
  case (Cons w ws)
  show ?case
  proof (cases "recv_ready (mmio s)")
    case True
    with Cons.prems wait_ready[OF True, of "w # ws"] show ?thesis
      by (intro exI[of _ "[mmio s]"]) auto
  next
    case nr: False
    show ?thesis
    proof (cases "signal_pending s")
      case True
      with Cons.prems wait_signal[OF nr True, of "w # ws"] nr show ?thesis
        by (intro exI[of _ "[mmio s]"]) auto
    next
      case False
      define t where "t = s\<lparr>mmio := wake_mmio w, signal_pending := wake_signal w,
          events := events s @ [ctrl_read (mmio s)]\<rparr>"
      from Cons.prems nr False have "wait_event_interruptible t ws = Some (b, s')"
        by (simp add: wait_sleep_Cons t_def)
      from Cons.IH[OF this] obtain rs where
        rs: "s' = t\<lparr>mmio := mmio s', signal_pending := signal_pending s',
                 events := events t @ map ctrl_read rs\<rparr>"
        and b: "b \<longleftrightarrow> \<not> recv_ready (mmio s')" by blast
      have "s' = s\<lparr>mmio := mmio s', signal_pending := signal_pending s',
                 events := events s @ map ctrl_read (mmio s # rs)\<rparr>"
        by (subst rs) (simp add: t_def)
      with b show ?thesis by blast
    qed
  qed
qed

lemma read_ready_run:
  assumes ok: "access_ok K buf count" and rdy: "recv_ready (mmio s)"
    and k: "k \<le> MBOX_NUM_DATA_REGS"
    and mapped: "\<forall>n<k. umem s (buf + n) \<noteq> None"
    and stop: "k < MBOX_NUM_DATA_REGS \<longrightarrow> umem s (buf + k) = None"
  shows "mbox_host_read K s buf count ws =
     Some (if k < MBOX_NUM_DATA_REGS
           then (Inl EFAULT,
                 s\<lparr>umem := drained_umem (umem s) (mmio s) buf 0 k,
                   events := events s @ ctrl_read (mmio s) # drain_events (mmio s) buf 0 k
                               @ [Ioread8 (slot k) (mmio s (slot k))]\<rparr>)
           else (Inr MBOX_NUM_DATA_REGS,
                 s\<lparr>mmio := iowrite8 MBOX_CTRL_RECV MBOX_BMC_CTRL (mmio s),
                   umem := drained_umem (umem s) (mmio s) buf 0 MBOX_NUM_DATA_REGS,
                   events := events s @ ctrl_read (mmio s)
                               # drain_events (mmio s) buf 0 MBOX_NUM_DATA_REGS
                               @ [Iowrite8 MBOX_CTRL_RECV MBOX_BMC_CTRL]\<rparr>))"
proof -
  define s1 where "s1 = s\<lparr>events := events s @ [ctrl_read (mmio s)]\<rparr>"
  have w: "wait_event_interruptible s ws = Some (False, s1)"
    unfolding s1_def by (rule wait_ready [OF rdy])
  have "read_loop s1 0 (buf + 0) =
     ((if k < MBOX_NUM_DATA_REGS then Inl EFAULT else Inr (buf + k)),
      s1\<lparr>umem := drained_umem (umem s1) (mmio s1) buf 0 k,
        events := events s1 @ drain_events (mmio s1) buf 0 k @
          (if k < MBOX_NUM_DATA_REGS then [Ioread8 (slot k) (mmio s1 (slot k))] else [])\<rparr>)"
    using k mapped stop by (intro read_loop_run) (simp_all add: s1_def)
  then have l: "read_loop s1 0 buf =
     ((if k < MBOX_NUM_DATA_REGS then Inl EFAULT else Inr (buf + k)),
      s1\<lparr>umem := drained_umem (umem s1) (mmio s1) buf 0 k,
        events := events s1 @ drain_events (mmio s1) buf 0 k @
          (if k < MBOX_NUM_DATA_REGS then [Ioread8 (slot k) (mmio s1 (slot k))] else [])\<rparr>)"
    by simp
  show ?thesis
  proof (cases "k < MBOX_NUM_DATA_REGS")
    case True
    with ok w l show ?thesis
      by (cases s) (simp add: mbox_host_read_def s1_def)
  next
    case False
    with k have "k = MBOX_NUM_DATA_REGS" by simp
    with ok w l show ?thesis
      by (cases s) (simp add: mbox_host_read_def s1_def mbox_outb_def)
  qed
qed

lemma read_after_idle:
  assumes ok: "access_ok K buf count"
    and idle: "\<not> recv_ready (mmio s)" "\<not> signal_pending s" "list_all idle_wake ws"
  shows "mbox_host_read K s buf count (ws @ w # rest) =
     mbox_host_read K
       (s\<lparr>mmio := wake_mmio w, signal_pending := wake_signal w,
          events := events s @ map ctrl_read (mmio s # map wake_mmio ws)\<rparr>) buf count rest"
  using ok by (simp add: mbox_host_read_def wait_after_idle [OF idle])

lemma read_all_idle:
  assumes ok: "access_ok K buf count"
    and idle: "\<not> recv_ready (mmio s)" "\<not> signal_pending s" "list_all idle_wake ws"
  shows "mbox_host_read K s buf count ws = None"
  using ok by (simp add: mbox_host_read_def wait_all_idle [OF idle])

lemma read_signal:
  assumes ok: "access_ok K buf count"
    and sig: "\<not> recv_ready (mmio s)" "signal_pending s"
  shows "mbox_host_read K s buf count ws =
     Some (Inl ERESTARTSYS, s\<lparr>events := events s @ [ctrl_read (mmio s)]\<rparr>)"
  using ok by (simp add: mbox_host_read_def wait_signal [OF sig])

lemma ex_facts:
  "access_ok ex_kernel 16 3"
  "\<forall>n<MBOX_NUM_DATA_REGS. umem ex_host (16 + n) \<noteq> None"
  "\<not> recv_ready (mmio ex_host)" "\<not> signal_pending ex_host"
  "idle_wake ex_idle" "recv_ready (wake_mmio ex_delivery)" "recv_ready ex_frame"
  "\<not> recv_ready (wake_mmio ex_signal)" "wake_signal ex_signal"
  by (simp_all add: ex_kernel_def ex_host_def ex_idle_def ex_delivery_def ex_signal_def
      ex_frame_def idle_wake_def recv_ready_def mbox_consts)

lemma stores_append [simp]: "stores (xs @ ys) = stores xs @ stores ys"
  by (induction xs rule: stores.induct) simp_all

lemma reg_writes_append [simp]: "reg_writes (xs @ ys) = reg_writes xs @ reg_writes ys"
  by (induction xs rule: reg_writes.induct) simp_all

lemma reg_reads_append [simp]: "reg_reads (xs @ ys) = reg_reads xs @ reg_reads ys"
  by (induction xs rule: reg_reads.induct) simp_all

lemma ctrl_reads_quiet [simp]:
  "stores (map ctrl_read rs) = []" "reg_writes (map ctrl_read rs) = []"
  "reg_reads (map ctrl_read rs) = map (\<lambda>r. (MBOX_BMC_CTRL, r MBOX_BMC_CTRL)) rs"
  by (induction rs) (simp_all add: ctrl_read_def)

lemma drain_events_projections:
  "stores (drain_events r buf i k) = map (\<lambda>n. (buf + n, r (slot n))) [i..<k]"
  "reg_writes (drain_events r buf i k) = []"
  "reg_reads (drain_events r buf i k) = map (\<lambda>n. (slot n, r (slot n))) [i..<k]"
  unfolding drain_events_def by (induction k) simp_all

lemma fill_events_projections:
  "reg_writes (fill_events um buf i k) = map (\<lambda>n. (slot n, the (um (buf + n)))) [i..<k]"
  "reg_reads (fill_events um buf i k) = []"
  "stores (fill_events um buf i k) = []"
  unfolding fill_events_def by (induction k) simp_all

lemma read_loop_error:
  "read_loop s i p = (Inl e, s') \<Longrightarrow> e = EFAULT"
proof (induction s i p rule: read_loop.induct)
  case (1 s i p)
  show ?case
  proof (cases "i < MBOX_NUM_DATA_REGS")
    case False
    with "1.prems" show ?thesis by (subst (asm) read_loop.simps) simp
  next
    case True
    define x where "x = mmio s (MBOX_DATA_0 + (i * 4))"
    define s1 where "s1 = s\<lparr>events := events s @ [Ioread8 (MBOX_DATA_0 + (i * 4)) x]\<rparr>"
    have inb: "mbox_inb s (MBOX_DATA_0 + (i * 4)) = (x, s1)"
      by (simp add: mbox_inb_def x_def s1_def)
    show ?thesis
    proof (cases "put_user s1 x p")
      case None
      with True inb "1.prems" show ?thesis
        by (subst (asm) read_loop.simps) simp
    next
      case (Some s2)
      with True inb "1.prems" have "read_loop s2 (i + 1) (p + 1) = (Inl e, s')"
        by (subst (asm) read_loop.simps) simp
      with True inb Some show ?thesis
        by (intro "1.IH"[of x s1 s2]) simp_all
    qed
  qed
qed

lemma read_loop_Inr_mapped:
  assumes "read_loop s 0 buf = (Inr p, s2)"
  shows "\<forall>n<MBOX_NUM_DATA_REGS. umem s (buf + n) \<noteq> None"
proof (rule ccontr)
  assume "\<not> (\<forall>n<MBOX_NUM_DATA_REGS. umem s (buf + n) \<noteq> None)"
  then obtain m where m: "m < MBOX_NUM_DATA_REGS" "umem s (buf + m) = None" by auto
  define k where "k = (LEAST n. umem s (buf + n) = None)"
  have kn: "umem s (buf + k) = None"
    unfolding k_def using m(2) by (rule LeastI)
  have "k \<le> m" unfolding k_def using m(2) by (rule Least_le)
  with m have k14: "k < MBOX_NUM_DATA_REGS" by simp
  have below: "\<forall>n. 0 \<le> n \<and> n < k \<longrightarrow> umem s (buf + n) \<noteq> None"
    unfolding k_def using not_less_Least by blast
  have "read_loop s 0 (buf + 0) =
     ((if k < MBOX_NUM_DATA_REGS then Inl EFAULT else Inr (buf + k)),
      s\<lparr>umem := drained_umem (umem s) (mmio s) buf 0 k,
        events := events s @ drain_events (mmio s) buf 0 k @
          (if k < MBOX_NUM_DATA_REGS then [Ioread8 (slot k) (mmio s (slot k))] else [])\<rparr>)"
    using k14 below kn by (intro read_loop_run) simp_all
  with k14 assms show False by simp
qed

lemma read_retry_ready:
  assumes "recv_ready r" "access_ok K buf count" "\<forall>n<MBOX_NUM_DATA_REGS. umem s (buf + n) \<noteq> None"
  shows "\<exists>s''. mbox_host_read K (s\<lparr>mmio := r, signal_pending := g\<rparr>) buf count ws
            = Some (Inr MBOX_NUM_DATA_REGS, s'')
          \<and> (\<forall>n<MBOX_NUM_DATA_REGS. umem s'' (buf + n) = Some (r (slot n)))"
proof -
  define t where "t = s\<lparr>mmio := r, signal_pending := g\<rparr>"
  have "recv_ready (mmio t)" "\<forall>n<MBOX_NUM_DATA_REGS. umem t (buf + n) \<noteq> None"
    using assms by (simp_all add: t_def)
  from read_ready_run [OF assms(2) this(1) le_refl, of ws] this(2)
  have "mbox_host_read K t buf count ws =
        Some (Inr MBOX_NUM_DATA_REGS,
                 t\<lparr>mmio := iowrite8 MBOX_CTRL_RECV MBOX_BMC_CTRL (mmio t),
                   umem := drained_umem (umem t) (mmio t) buf 0 MBOX_NUM_DATA_REGS,
                   events := events t @ ctrl_read (mmio t)
                               # drain_events (mmio t) buf 0 MBOX_NUM_DATA_REGS
                               @ [Iowrite8 MBOX_CTRL_RECV MBOX_BMC_CTRL]\<rparr>)"
    by simp
  then show ?thesis
    unfolding t_def [symmetric] by (simp add: drained_umem_def t_def)
qed

lemma write_run:
  assumes ok: "access_ok K buf count"
    and k: "k \<le> MBOX_NUM_DATA_REGS"
    and mapped: "\<forall>n<k. umem s (buf + n) \<noteq> None"
    and stop: "k < MBOX_NUM_DATA_REGS \<longrightarrow> umem s (buf + k) = None"
  shows "mbox_host_write K s buf count =
     (if k < MBOX_NUM_DATA_REGS
      then (Inl EFAULT,
            s\<lparr>mmio := filled_mmio (mmio s) (umem s) buf 0 k,
              events := events s @ fill_events (umem s) buf 0 k\<rparr>)
      else (Inr MBOX_NUM_DATA_REGS,
            s\<lparr>mmio := iowrite8 MBOX_CTRL_SEND MBOX_BMC_CTRL
                        (filled_mmio (mmio s) (umem s) buf 0 MBOX_NUM_DATA_REGS),
              events := events s @ fill_events (umem s) buf 0 MBOX_NUM_DATA_REGS
                          @ [Iowrite8 MBOX_CTRL_SEND MBOX_BMC_CTRL]\<rparr>))"
proof -
  have "write_loop s 0 (buf + 0) =
     ((if k < MBOX_NUM_DATA_REGS then Inl EFAULT else Inr (buf + k)),
      s\<lparr>mmio := filled_mmio (mmio s) (umem s) buf 0 k,
        events := events s @ fill_events (umem s) buf 0 k\<rparr>)"
    using k mapped stop by (intro write_loop_run) simp_all
  then have l: "write_loop s 0 buf =
     ((if k < MBOX_NUM_DATA_REGS then Inl EFAULT else Inr (buf + k)),
      s\<lparr>mmio := filled_mmio (mmio s) (umem s) buf 0 k,
        events := events s @ fill_events (umem s) buf 0 k\<rparr>)"
    by simp
  show ?thesis
  proof (cases "k < MBOX_NUM_DATA_REGS")
    case True
    with ok l show ?thesis by (simp add: mbox_host_write_def)
  next
    case False
    with k have "k = MBOX_NUM_DATA_REGS" by simp
    with ok l show ?thesis by (simp add: mbox_host_write_def mbox_outb_def)
  qed
qed

lemma ex_sender_facts:
  "\<forall>n<MBOX_NUM_DATA_REGS. umem ex_sender (16 + n) \<noteq> None"
  "events ex_sender = []"
  by (simp_all add: ex_sender_def ex_host_def mbox_consts)

lemma irq_recv_clears:
  "recv_clears (events (snd (mbox_host_irq s))) = recv_clears (events s)"
  by (simp add: mbox_host_irq_eq mbox_consts)

lemma write_recv_clears:
  "recv_clears (events (snd (mbox_host_write K s buf count))) = recv_clears (events s)"
proof (cases "access_ok K buf count")
  case False
  then show ?thesis by (simp add: mbox_host_write_def)
next
  case True
  obtain r s1 where l: "write_loop s 0 buf = (r, s1)" by (cases "write_loop s 0 buf")
  then have "recv_clears (events s1) = recv_clears (events s)"
    using write_loop_recv_clears [of s 0 buf] by simp
  with True l show ?thesis
    by (cases r) (simp_all add: mbox_host_write_def mbox_outb_def mbox_consts)
qed

lemma read_recv_clears:
  assumes "mbox_host_read K s buf count ws = Some (r, s')"
  shows "recv_clears (events s') = recv_clears (events s) + (case r of Inl e \<Rightarrow> 0 | Inr n \<Rightarrow> 1)"
proof (cases "access_ok K buf count")
  case False
  with assms show ?thesis by (auto simp: mbox_host_read_def)
next
  case True
  with assms obtain b s1 where w: "wait_event_interruptible s ws = Some (b, s1)"
    by (auto simp: mbox_host_read_def split: option.splits)
  from wait_recv_clears [OF w] have e1: "recv_clears (events s1) = recv_clears (events s)" .
  show ?thesis
  proof (cases b)
    case True
    with assms \<open>access_ok K buf count\<close> w e1 show ?thesis
      by (auto simp: mbox_host_read_def)
  next
    case False
    obtain r2 s2 where l: "read_loop s1 0 buf = (r2, s2)" by (cases "read_loop s1 0 buf")
    then have e2: "recv_clears (events s2) = recv_clears (events s1)"
      using read_loop_recv_clears [of s1 0 buf] by simp
    from assms \<open>access_ok K buf count\<close> w False l e1 e2 show ?thesis
      by (cases r2) (auto simp: mbox_host_read_def mbox_outb_def mbox_consts)
  qed
qed

lemma config_irq_recv_clears:
  "recv_clears (events (snd (mbox_host_config_irq pdev s)))
     = recv_clears (events s) + (case fst (mbox_host_config_irq pdev s) of None \<Rightarrow> 1 | Some e \<Rightarrow> 0)"
  by (simp add: mbox_host_config_irq_def Let_def mbox_outb_def mbox_consts)







section \<open>The claims\<close>

subsection \<open>C1: who clears RECV\<close>

text \<open>
  C1, as amended. The interrupt handler reads the control register; with \<open>RECV\<close> unset
  it returns \<open>IRQ_NONE\<close> and does nothing else (no register write, no wake); with
  \<open>RECV\<close> set it writes \<open>MASK\<close>, which has no \<open>RECV\<close> bit, to the control register,
  then wakes the queue, and \<open>RECV\<close> reads as before. No notification source clears
  \<open>RECV\<close>: neither the handler nor the timer tick makes a \<open>RECV\<close>-clearing write, nor
  do write, the control operation and the readiness query; a read makes exactly one,
  when it completes with a byte count, and none otherwise. The one other
  \<open>RECV\<close>-clearing write of the driver is made by \<open>mbox_host_config_irq\<close> during attach,
  once, when it has bound the interrupt.
\<close>

theorem recv_cleared_by_read_and_attach_only:
  "mbox_host_irq s =
     (if \<not> recv_ready (mmio s)
      then (IRQ_NONE, s\<lparr>events := events s @ [ctrl_read (mmio s)]\<rparr>)
      else (IRQ_HANDLED,
            s\<lparr>mmio := iowrite8 MBOX_CTRL_MASK MBOX_BMC_CTRL (mmio s),
              events := events s @ [ctrl_read (mmio s),
                                    Iowrite8 MBOX_CTRL_MASK MBOX_BMC_CTRL, Wake_up]\<rparr>))
   \<and> \<not> clears_recv (Iowrite8 MBOX_CTRL_MASK MBOX_BMC_CTRL)
   \<and> recv_ready (mmio (snd (mbox_host_irq s))) = recv_ready (mmio s)
   \<and> recv_clears (events (snd (mbox_host_irq s))) = recv_clears (events s)
   \<and> recv_clears (events (poll_timer K s)) = recv_clears (events s)
   \<and> recv_clears (events (snd (mbox_host_write K s buf count))) = recv_clears (events s)
   \<and> recv_clears (events (snd (mbox_host_ioctl K s cmd param))) = recv_clears (events s)
   \<and> recv_clears (events (snd (mbox_host_poll s))) = recv_clears (events s)
   \<and> (case mbox_host_read K s buf count ws of
         None \<Rightarrow> True
       | Some (r, s') \<Rightarrow>
           recv_clears (events s') = recv_clears (events s) + (case r of Inl e \<Rightarrow> 0 | Inr n \<Rightarrow> 1))
   \<and> recv_clears (events (snd (mbox_host_config_irq pdev s)))
       = recv_clears (events s)
         + (case fst (mbox_host_config_irq pdev s) of None \<Rightarrow> 1 | Some e \<Rightarrow> 0)"
proof -
  have irq: "mbox_host_irq s =
     (if \<not> recv_ready (mmio s)
      then (IRQ_NONE, s\<lparr>events := events s @ [ctrl_read (mmio s)]\<rparr>)
      else (IRQ_HANDLED,
            s\<lparr>mmio := iowrite8 MBOX_CTRL_MASK MBOX_BMC_CTRL (mmio s),
              events := events s @ [ctrl_read (mmio s),
                                    Iowrite8 MBOX_CTRL_MASK MBOX_BMC_CTRL, Wake_up]\<rparr>))"
    by (simp add: mbox_host_irq_eq recv_ready_def ctrl_read_def)
  have mask: "\<not> clears_recv (Iowrite8 MBOX_CTRL_MASK MBOX_BMC_CTRL)"
    by (simp add: mbox_consts)
  have keep: "recv_ready (mmio (snd (mbox_host_irq s))) = recv_ready (mmio s)"
    by (simp add: irq) (simp add: recv_ready_def iowrite8_mask_keeps_recv)
  have timer: "recv_clears (events (poll_timer K s)) = recv_clears (events s)"
    by (simp add: poll_timer_def add_timer_def wake_up_def)
  have ioctl: "recv_clears (events (snd (mbox_host_ioctl K s cmd param))) = recv_clears (events s)"
    by (simp add: mbox_host_ioctl_eq mbox_consts)
  have poll: "recv_clears (events (snd (mbox_host_poll s))) = recv_clears (events s)"
    by (simp add: mbox_host_poll_def mbox_inb_def poll_wait_def)
  have rd: "(case mbox_host_read K s buf count ws of
         None \<Rightarrow> True
       | Some (r, s') \<Rightarrow>
           recv_clears (events s') = recv_clears (events s) + (case r of Inl e \<Rightarrow> 0 | Inr n \<Rightarrow> 1))"
    using read_recv_clears [of K s buf count ws] by (auto split: option.splits)
  from irq mask keep irq_recv_clears timer write_recv_clears ioctl poll rd config_irq_recv_clears
  show ?thesis by blast
qed

text \<open>The instance: the handler with a frame pending, and with none.\<close>

theorem recv_cleared_by_read_and_attach_only_witness:
  "mbox_host_irq (ex_host\<lparr>mmio := ex_frame\<rparr>) =
     (IRQ_HANDLED,
      ex_host\<lparr>mmio := iowrite8 MBOX_CTRL_MASK MBOX_BMC_CTRL ex_frame,
        events := [ctrl_read ex_frame, Iowrite8 MBOX_CTRL_MASK MBOX_BMC_CTRL, Wake_up]\<rparr>)
   \<and> recv_ready (mmio (snd (mbox_host_irq (ex_host\<lparr>mmio := ex_frame\<rparr>))))
   \<and> recv_clears (events (snd (mbox_host_irq (ex_host\<lparr>mmio := ex_frame\<rparr>)))) = 0
   \<and> fst (mbox_host_irq ex_host) = IRQ_NONE
   \<and> events (snd (mbox_host_irq ex_host)) = [ctrl_read (mmio ex_host)]"
proof -
  define t where "t = ex_host\<lparr>mmio := ex_frame\<rparr>"
  have rdy: "recv_ready (mmio t)" and e0: "events t = []" "events ex_host = []"
    using ex_facts by (simp_all add: t_def ex_host_def)
  note a = recv_cleared_by_read_and_attach_only [of t ex_kernel 0 0 0 0 "[]" ex_pdev]
  note b = recv_cleared_by_read_and_attach_only [of ex_host ex_kernel 0 0 0 0 "[]" ex_pdev]
  from a rdy e0 have 1: "mbox_host_irq t =
     (IRQ_HANDLED,
      t\<lparr>mmio := iowrite8 MBOX_CTRL_MASK MBOX_BMC_CTRL (mmio t),
        events := [ctrl_read (mmio t), Iowrite8 MBOX_CTRL_MASK MBOX_BMC_CTRL, Wake_up]\<rparr>)"
    by simp
  from a [THEN conjunct2, THEN conjunct2, THEN conjunct1] rdy
  have 2: "recv_ready (mmio (snd (mbox_host_irq t)))" by simp
  from a have "recv_clears (events (snd (mbox_host_irq t))) = recv_clears (events t)" by blast
  with e0 have 3: "recv_clears (events (snd (mbox_host_irq t))) = 0" by simp
  from b ex_facts(3) e0 have 4: "mbox_host_irq ex_host =
      (IRQ_NONE, ex_host\<lparr>events := [ctrl_read (mmio ex_host)]\<rparr>)"
    by simp
  from 1 2 3 4 show ?thesis
    unfolding t_def by simp
qed

text \<open>
  C1 as stated fails in its last sentence: binding the interrupt during attach ends with a
  write of \<open>RECV\<close> to the control register, which is not a read completing.
\<close>

theorem attach_clears_recv_counterexample:
  "events (snd (mbox_host_config_irq ex_pdev ex_host)) =
     [Iowrite8 0x00 MBOX_INTERRUPT_0, Iowrite8 0x00 MBOX_INTERRUPT_1,
      Iowrite8 0xff MBOX_STATUS_0, Iowrite8 0xff MBOX_STATUS_1,
      Iowrite8 MBOX_CTRL_RECV MBOX_BMC_CTRL]
   \<and> clears_recv (Iowrite8 MBOX_CTRL_RECV MBOX_BMC_CTRL)
   \<and> recv_clears (events (snd (mbox_host_config_irq ex_pdev ex_host))) = 1"
  by (simp add: mbox_host_config_irq_def Let_def mbox_outb_def ex_pdev_def ex_host_def mbox_consts)

subsection \<open>C2: read blocks until RECV is set, then drains the frame\<close>

text \<open>
  C2. For a read whose buffer passes the range check and whose 14 destination bytes are
  mapped: with \<open>RECV\<close> reading set, the call reads the 14 payload slots in ascending
  slot order, each byte stored at the buffer in the same order, then writes \<open>RECV\<close>
  to the control register once, as its last action, and returns 14. With \<open>RECV\<close>
  unset and no signal, it stays blocked through every wake that finds \<open>RECV\<close> unset,
  and completes in the same way at the first wake that finds it set, with the bytes of
  the window found then.
\<close>

theorem read_blocks_until_recv_then_drains:
  assumes ok: "access_ok K buf count"
    and mapped: "\<forall>n<MBOX_NUM_DATA_REGS. umem s (buf + n) \<noteq> None"
  shows
    "(recv_ready (mmio s) \<longrightarrow>
        mbox_host_read K s buf count ws =
          Some (Inr MBOX_NUM_DATA_REGS,
                s\<lparr>mmio := iowrite8 MBOX_CTRL_RECV MBOX_BMC_CTRL (mmio s),
                  umem := drained_umem (umem s) (mmio s) buf 0 MBOX_NUM_DATA_REGS,
                  events := events s @ ctrl_read (mmio s)
                              # drain_events (mmio s) buf 0 MBOX_NUM_DATA_REGS
                              @ [Iowrite8 MBOX_CTRL_RECV MBOX_BMC_CTRL]\<rparr>))
     \<and> (\<not> recv_ready (mmio s) \<and> \<not> signal_pending s \<and> list_all idle_wake ws \<longrightarrow>
        mbox_host_read K s buf count ws = None
        \<and> (recv_ready (wake_mmio w) \<longrightarrow>
             mbox_host_read K s buf count (ws @ w # rest) =
               Some (Inr MBOX_NUM_DATA_REGS,
                     s\<lparr>mmio := iowrite8 MBOX_CTRL_RECV MBOX_BMC_CTRL (wake_mmio w),
                       umem := drained_umem (umem s) (wake_mmio w) buf 0 MBOX_NUM_DATA_REGS,
                       signal_pending := wake_signal w,
                       events := events s @ map ctrl_read (mmio s # map wake_mmio (ws @ [w]))
                                   @ drain_events (wake_mmio w) buf 0 MBOX_NUM_DATA_REGS
                                   @ [Iowrite8 MBOX_CTRL_RECV MBOX_BMC_CTRL]\<rparr>)))"
proof (intro conjI impI)
  assume "recv_ready (mmio s)"
  from read_ready_run [OF ok this le_refl, of ws] mapped
  show "mbox_host_read K s buf count ws =
          Some (Inr MBOX_NUM_DATA_REGS,
                s\<lparr>mmio := iowrite8 MBOX_CTRL_RECV MBOX_BMC_CTRL (mmio s),
                  umem := drained_umem (umem s) (mmio s) buf 0 MBOX_NUM_DATA_REGS,
                  events := events s @ ctrl_read (mmio s)
                              # drain_events (mmio s) buf 0 MBOX_NUM_DATA_REGS
                              @ [Iowrite8 MBOX_CTRL_RECV MBOX_BMC_CTRL]\<rparr>)"
    by simp
next
  assume idle: "\<not> recv_ready (mmio s) \<and> \<not> signal_pending s \<and> list_all idle_wake ws"
  then show "mbox_host_read K s buf count ws = None"
    by (intro read_all_idle [OF ok]) simp_all
next
  assume idle: "\<not> recv_ready (mmio s) \<and> \<not> signal_pending s \<and> list_all idle_wake ws"
    and rdy: "recv_ready (wake_mmio w)"
  define t where "t = s\<lparr>mmio := wake_mmio w, signal_pending := wake_signal w,
          events := events s @ map ctrl_read (mmio s # map wake_mmio ws)\<rparr>"
  from idle have "mbox_host_read K s buf count (ws @ w # rest) = mbox_host_read K t buf count rest"
    unfolding t_def by (intro read_after_idle [OF ok]) simp_all
  moreover have "recv_ready (mmio t)" "\<forall>n<MBOX_NUM_DATA_REGS. umem t (buf + n) \<noteq> None"
    using rdy mapped by (simp_all add: t_def)
  from read_ready_run [OF ok this(1) le_refl, of rest] this(2)
  have "mbox_host_read K t buf count rest =
          Some (Inr MBOX_NUM_DATA_REGS,
                t\<lparr>mmio := iowrite8 MBOX_CTRL_RECV MBOX_BMC_CTRL (mmio t),
                  umem := drained_umem (umem t) (mmio t) buf 0 MBOX_NUM_DATA_REGS,
                  events := events t @ ctrl_read (mmio t)
                              # drain_events (mmio t) buf 0 MBOX_NUM_DATA_REGS
                              @ [Iowrite8 MBOX_CTRL_RECV MBOX_BMC_CTRL]\<rparr>)"
    by simp
  ultimately show "mbox_host_read K s buf count (ws @ w # rest) =
               Some (Inr MBOX_NUM_DATA_REGS,
                     s\<lparr>mmio := iowrite8 MBOX_CTRL_RECV MBOX_BMC_CTRL (wake_mmio w),
                       umem := drained_umem (umem s) (wake_mmio w) buf 0 MBOX_NUM_DATA_REGS,
                       signal_pending := wake_signal w,
                       events := events s @ map ctrl_read (mmio s # map wake_mmio (ws @ [w]))
                                   @ drain_events (wake_mmio w) buf 0 MBOX_NUM_DATA_REGS
                                   @ [Iowrite8 MBOX_CTRL_RECV MBOX_BMC_CTRL]\<rparr>)"
    by (cases s) (simp add: t_def)
qed

text \<open>The instance: one spurious wake, then a delivery; 14 bytes arrive at 16..29.\<close>

theorem read_blocks_until_recv_then_drains_witness:
  "mbox_host_read ex_kernel ex_host 16 3 [ex_idle] = None
   \<and> (\<exists>s'. mbox_host_read ex_kernel ex_host 16 3 ([ex_idle] @ ex_delivery # []) =
              Some (Inr 14, s')
          \<and> map (umem s') [16, 17, 29, 30] = [Some 0, Some 4, Some 52, Some 0]
          \<and> \<not> recv_ready (mmio s')
          \<and> last (events s') = Iowrite8 MBOX_CTRL_RECV MBOX_BMC_CTRL)"
proof -
  note inst = read_blocks_until_recv_then_drains
    [OF ex_facts(1) ex_facts(2), of "[ex_idle]" ex_delivery "[]"]
  from inst ex_facts have blocked: "mbox_host_read ex_kernel ex_host 16 3 [ex_idle] = None"
    by simp
  from inst ex_facts have "mbox_host_read ex_kernel ex_host 16 3 ([ex_idle] @ ex_delivery # []) =
     Some (Inr MBOX_NUM_DATA_REGS,
           ex_host\<lparr>mmio := iowrite8 MBOX_CTRL_RECV MBOX_BMC_CTRL (wake_mmio ex_delivery),
             umem := drained_umem (umem ex_host) (wake_mmio ex_delivery) 16 0 MBOX_NUM_DATA_REGS,
             signal_pending := wake_signal ex_delivery,
             events := events ex_host
               @ map ctrl_read (mmio ex_host # map wake_mmio ([ex_idle] @ [ex_delivery]))
               @ drain_events (wake_mmio ex_delivery) 16 0 MBOX_NUM_DATA_REGS
               @ [Iowrite8 MBOX_CTRL_RECV MBOX_BMC_CTRL]\<rparr>)"
    by simp
  then show ?thesis
    using blocked
    apply (simp add: drained_umem_def ex_delivery_def ex_frame_def slot_def ex_host_def
        recv_ready_def iowrite8_recv_clears)
    apply (simp add: mbox_consts)
    done
qed

subsection \<open>C3: write fills the 14 payload slots and asserts SEND\<close>

text \<open>
  C3, as amended. A write whose buffer passes the range check and whose first 14 bytes are
  readable never waits (it takes no wakes), copies exactly 14 bytes into the payload
  slots in ascending slot order whatever the length \<open>count\<close> (bytes beyond the 14th are
  ignored, and a shorter \<open>count\<close> does not shorten the copy), then writes \<open>SEND\<close> to
  the control register once, as its last action, and returns 14, the number of bytes
  written.
\<close>

theorem write_copies_full_frame_whatever_count:
  assumes ok: "access_ok K buf count"
    and mapped: "\<forall>n<MBOX_NUM_DATA_REGS. umem s (buf + n) \<noteq> None"
  shows "mbox_host_write K s buf count =
     (Inr MBOX_NUM_DATA_REGS,
      s\<lparr>mmio := iowrite8 MBOX_CTRL_SEND MBOX_BMC_CTRL
                  (filled_mmio (mmio s) (umem s) buf 0 MBOX_NUM_DATA_REGS),
        events := events s @ fill_events (umem s) buf 0 MBOX_NUM_DATA_REGS
                    @ [Iowrite8 MBOX_CTRL_SEND MBOX_BMC_CTRL]\<rparr>)
   \<and> reg_writes (fill_events (umem s) buf 0 MBOX_NUM_DATA_REGS
                  @ [Iowrite8 MBOX_CTRL_SEND MBOX_BMC_CTRL])
       = map (\<lambda>n. (slot n, the (umem s (buf + n)))) [0..<MBOX_NUM_DATA_REGS]
           @ [(MBOX_BMC_CTRL, MBOX_CTRL_SEND)]"
  using write_run [OF ok le_refl, of s] mapped
  by (simp add: fill_events_projections)

text \<open>The instance: a write with \<open>count = 3\<close>.\<close>

theorem write_copies_full_frame_whatever_count_witness:
  "fst (mbox_host_write ex_kernel ex_sender 16 3) = Inr 14
   \<and> reg_writes (events (snd (mbox_host_write ex_kernel ex_sender 16 3)))
       = map (\<lambda>n. (slot n, of_nat (16 + n))) [0..<14] @ [(MBOX_BMC_CTRL, MBOX_CTRL_SEND)]"
proof -
  have "map (\<lambda>n. (slot n, the (umem ex_sender (16 + n)))) [0..<MBOX_NUM_DATA_REGS]
      = map (\<lambda>n. (slot n, of_nat (16 + n))) [0..<MBOX_NUM_DATA_REGS]"
    by (rule map_cong) (simp_all add: ex_sender_def ex_host_def mbox_consts)
  with write_copies_full_frame_whatever_count [OF ex_facts(1) ex_sender_facts(1)]
  show ?thesis
    by (simp add: ex_sender_facts(2) fill_events_projections MBOX_NUM_DATA_REGS_def)
qed

text \<open>
  C3 as stated fails: with \<open>count = 3\<close> the call writes 14 payload bytes, those at the
  addresses 16 to 29, and returns 14, not 3.
\<close>

theorem write_ignores_short_count_counterexample:
  "fst (mbox_host_write ex_kernel ex_sender 16 3) = Inr 14
   \<and> reg_writes (events (snd (mbox_host_write ex_kernel ex_sender 16 3)))
       = [(0, 16), (4, 17), (8, 18), (12, 19), (16, 20), (20, 21), (24, 22), (28, 23),
          (32, 24), (36, 25), (40, 26), (44, 27), (48, 28), (52, 29), (MBOX_BMC_CTRL, MBOX_CTRL_SEND)]"
proof -
  have up: "[0..<14] = [0, 1, 2, 3, 4, 5, 6, 7, 8, 9, 10, 11, 12, 13]"
    by (simp add: upt_rec)
  from write_run [OF ex_facts(1) le_refl, of ex_sender] ex_sender_facts
  have "mbox_host_write ex_kernel ex_sender 16 3 =
     (Inr MBOX_NUM_DATA_REGS,
      ex_sender\<lparr>mmio := iowrite8 MBOX_CTRL_SEND MBOX_BMC_CTRL
                  (filled_mmio (mmio ex_sender) (umem ex_sender) 16 0 MBOX_NUM_DATA_REGS),
        events := fill_events (umem ex_sender) 16 0 MBOX_NUM_DATA_REGS
                    @ [Iowrite8 MBOX_CTRL_SEND MBOX_BMC_CTRL]\<rparr>)"
    by simp
  then show ?thesis
    by (simp add: fill_events_projections MBOX_NUM_DATA_REGS_def up slot_def MBOX_DATA_0_def
        ex_sender_def ex_host_def)
qed

subsection \<open>C4: write, delivery, read\<close>

text \<open>
  C4. For a frame \<open>b\<close> of 14 bytes in the caller's buffer: write, then a peer delivery
  that asserts \<open>RECV\<close> and leaves the data registers alone, then read into a valid
  buffer gives the bytes of \<open>b\<close> in their order; the offsets write writes for the
  slots are the offsets read reads for them.
\<close>

theorem write_deliver_read_round_trip:
  assumes ok1: "access_ok K src (length b)" and ok2: "access_ok K dst count"
    and len: "length b = MBOX_NUM_DATA_REGS"
    and src: "\<forall>n<MBOX_NUM_DATA_REGS. umem s (src + n) = Some (b ! n)"
    and dst: "\<forall>n<MBOX_NUM_DATA_REGS. umem s (dst + n) \<noteq> None"
  shows "\<exists>s1 s2.
      mbox_host_write K s src (length b) = (Inr MBOX_NUM_DATA_REGS, s1)
    \<and> mbox_host_read K (peer_deliver s1) dst count ws = Some (Inr MBOX_NUM_DATA_REGS, s2)
    \<and> map (\<lambda>n. umem s2 (dst + n)) [0..<MBOX_NUM_DATA_REGS] = map Some b
    \<and> map fst (reg_writes (drop (length (events s)) (events s1)))
        = map slot [0..<MBOX_NUM_DATA_REGS] @ [MBOX_BMC_CTRL]
    \<and> map fst (reg_reads (drop (length (events s1)) (events s2)))
        = MBOX_BMC_CTRL # map slot [0..<MBOX_NUM_DATA_REGS]"
proof -
  define s1 where "s1 = s\<lparr>mmio := iowrite8 MBOX_CTRL_SEND MBOX_BMC_CTRL
                  (filled_mmio (mmio s) (umem s) src 0 MBOX_NUM_DATA_REGS),
        events := events s @ fill_events (umem s) src 0 MBOX_NUM_DATA_REGS
                    @ [Iowrite8 MBOX_CTRL_SEND MBOX_BMC_CTRL]\<rparr>"
  have wr: "mbox_host_write K s src (length b) = (Inr MBOX_NUM_DATA_REGS, s1)"
    using write_run [OF ok1 le_refl, of s] src by (simp add: s1_def)
  define t where "t = peer_deliver s1"
  have rdy: "recv_ready (mmio t)"
    by (simp add: t_def peer_deliver_def recv_ready_def mbox_consts)
  have ut: "umem t = umem s" by (simp add: t_def peer_deliver_def s1_def)
  have et: "events t = events s1" by (simp add: t_def peer_deliver_def)
  have data: "\<forall>n<MBOX_NUM_DATA_REGS. mmio t (slot n) = b ! n"
  proof (intro allI impI)
    fix n assume n: "n < MBOX_NUM_DATA_REGS"
    then have ne: "MBOX_BMC_CTRL \<noteq> slot n" using slot_neq_ctrl [of n] by simp
    have "mmio t (slot n) = filled_mmio (mmio s) (umem s) src 0 MBOX_NUM_DATA_REGS (slot n)"
      using ne by (simp add: t_def peer_deliver_def s1_def iowrite8_other)
    also have "\<dots> = the (umem s (src + n))"
      using n by (simp add: filled_mmio_def slot_div)
    finally show "mmio t (slot n) = b ! n" using src n by simp
  qed
  define s2 where "s2 = t\<lparr>mmio := iowrite8 MBOX_CTRL_RECV MBOX_BMC_CTRL (mmio t),
                   umem := drained_umem (umem t) (mmio t) dst 0 MBOX_NUM_DATA_REGS,
                   events := events t @ ctrl_read (mmio t)
                               # drain_events (mmio t) dst 0 MBOX_NUM_DATA_REGS
                               @ [Iowrite8 MBOX_CTRL_RECV MBOX_BMC_CTRL]\<rparr>"
  have rd: "mbox_host_read K t dst count ws = Some (Inr MBOX_NUM_DATA_REGS, s2)"
    using read_ready_run [OF ok2 rdy le_refl, of ws] dst by (simp add: ut s2_def)
  have "map (\<lambda>n. umem s2 (dst + n)) [0..<MBOX_NUM_DATA_REGS] = map (\<lambda>n. Some (b ! n)) [0..<MBOX_NUM_DATA_REGS]"
    using data by (intro map_cong) (simp_all add: s2_def drained_umem_def)
  also have "\<dots> = map Some (map (\<lambda>n. b ! n) [0..<length b])"
    by (simp add: len)
  also have "\<dots> = map Some b"
    by (simp only: map_nth)
  finally have bytes: "map (\<lambda>n. umem s2 (dst + n)) [0..<MBOX_NUM_DATA_REGS] = map Some b" .
  have w_off: "map fst (reg_writes (drop (length (events s)) (events s1)))
        = map slot [0..<MBOX_NUM_DATA_REGS] @ [MBOX_BMC_CTRL]"
    by (simp add: s1_def fill_events_projections comp_def)
  have r_off: "map fst (reg_reads (drop (length (events s1)) (events s2)))
        = MBOX_BMC_CTRL # map slot [0..<MBOX_NUM_DATA_REGS]"
    by (simp add: s2_def et drain_events_projections comp_def ctrl_read_def)
  from wr rd [unfolded t_def] bytes w_off r_off show ?thesis
    by auto
qed

text \<open>The instance: the frame at 16 arrives at 64.\<close>

theorem write_deliver_read_round_trip_witness:
  "\<exists>s1 s2.
      mbox_host_write ex_kernel ex_sender 16 14 = (Inr 14, s1)
    \<and> mbox_host_read ex_kernel (peer_deliver s1) 64 14 [] = Some (Inr 14, s2)
    \<and> map (\<lambda>n. umem s2 (64 + n)) [0..<14] = map Some ex_bytes"
proof -
  have up: "[0..<14] = [0, 1, 2, 3, 4, 5, 6, 7, 8, 9, 10, 11, 12, 13]"
    by (simp add: upt_rec)
  have len: "length ex_bytes = MBOX_NUM_DATA_REGS"
    by (simp add: ex_bytes_def mbox_consts)
  have ok: "access_ok ex_kernel 16 (length ex_bytes)" "access_ok ex_kernel 64 14"
    by (simp_all add: ex_kernel_def ex_bytes_def)
  have "\<forall>n \<in> set [0..<14]. umem ex_sender (16 + n) = Some (ex_bytes ! n)"
    unfolding up by (simp add: ex_sender_def ex_host_def ex_bytes_def)
  then have src: "\<forall>n<MBOX_NUM_DATA_REGS. umem ex_sender (16 + n) = Some (ex_bytes ! n)"
    by (simp add: mbox_consts)
  have dst: "\<forall>n<MBOX_NUM_DATA_REGS. umem ex_sender (64 + n) \<noteq> None"
    by (simp add: ex_sender_def ex_host_def mbox_consts)
  from write_deliver_read_round_trip [OF ok len src dst, of "[]"]
  obtain s1 s2 where
    "mbox_host_write ex_kernel ex_sender 16 (length ex_bytes) = (Inr MBOX_NUM_DATA_REGS, s1)"
    "mbox_host_read ex_kernel (peer_deliver s1) 64 14 [] = Some (Inr MBOX_NUM_DATA_REGS, s2)"
    "map (\<lambda>n. umem s2 (64 + n)) [0..<MBOX_NUM_DATA_REGS] = map Some ex_bytes"
    by blast
  then have
    "mbox_host_write ex_kernel ex_sender 16 14 = (Inr 14, s1)
     \<and> mbox_host_read ex_kernel (peer_deliver s1) 64 14 [] = Some (Inr 14, s2)
     \<and> map (\<lambda>n. umem s2 (64 + n)) [0..<14] = map Some ex_bytes"
    using len by (simp add: MBOX_NUM_DATA_REGS_def)
  then show ?thesis by blast
qed

subsection \<open>C5: a read aborted by a signal\<close>

text \<open>
  C5. A read whose wait is aborted by a signal before \<open>RECV\<close> is seen set returns
  \<open>ERESTARTSYS\<close> (an error, not a byte count). First part: it does so when, after any
  run of spurious wakes, a wake finds a signal pending and \<open>RECV\<close> unset. Second part,
  for every read that returns \<open>ERESTARTSYS\<close>: the call has done nothing but read the
  control register, so it made no register write, stored no byte, left user memory as it
  was, and \<open>RECV\<close> is still unset in the window it leaves; and once \<open>RECV\<close> is set a
  retry with a valid buffer returns 14 with the frame.
\<close>

theorem read_interrupted_touches_nothing:
  "(access_ok K buf count \<and> \<not> recv_ready (mmio s) \<and> \<not> signal_pending s
      \<and> list_all idle_wake ws \<and> \<not> recv_ready (wake_mmio w) \<and> wake_signal w \<longrightarrow>
      mbox_host_read K s buf count (ws @ w # rest) =
        Some (Inl ERESTARTSYS,
              s\<lparr>mmio := wake_mmio w, signal_pending := True,
                events := events s @ map ctrl_read (mmio s # map wake_mmio (ws @ [w]))\<rparr>))
   \<and> (mbox_host_read K s buf count ws = Some (Inl ERESTARTSYS, s') \<longrightarrow>
        (\<exists>rs. s' = s\<lparr>mmio := mmio s', signal_pending := signal_pending s',
                       events := events s @ map ctrl_read rs\<rparr>)
        \<and> umem s' = umem s
        \<and> reg_writes (drop (length (events s)) (events s')) = []
        \<and> stores (drop (length (events s)) (events s')) = []
        \<and> \<not> recv_ready (mmio s')
        \<and> (\<forall>r g count' ws'.
              recv_ready r \<and> access_ok K buf count'
              \<and> (\<forall>n<MBOX_NUM_DATA_REGS. umem s' (buf + n) \<noteq> None) \<longrightarrow>
              (\<exists>s''. mbox_host_read K (s'\<lparr>mmio := r, signal_pending := g\<rparr>) buf count' ws'
                        = Some (Inr MBOX_NUM_DATA_REGS, s'')
                    \<and> (\<forall>n<MBOX_NUM_DATA_REGS. umem s'' (buf + n) = Some (r (slot n))))))"
proof (intro conjI impI)
  assume a: "access_ok K buf count \<and> \<not> recv_ready (mmio s) \<and> \<not> signal_pending s
      \<and> list_all idle_wake ws \<and> \<not> recv_ready (wake_mmio w) \<and> wake_signal w"
  define t where "t = s\<lparr>mmio := wake_mmio w, signal_pending := wake_signal w,
          events := events s @ map ctrl_read (mmio s # map wake_mmio ws)\<rparr>"
  from a have "mbox_host_read K s buf count (ws @ w # rest) = mbox_host_read K t buf count rest"
    unfolding t_def by (intro read_after_idle) simp_all
  moreover from a have "mbox_host_read K t buf count rest =
      Some (Inl ERESTARTSYS, t\<lparr>events := events t @ [ctrl_read (mmio t)]\<rparr>)"
    by (intro read_signal) (simp_all add: t_def)
  ultimately show "mbox_host_read K s buf count (ws @ w # rest) =
        Some (Inl ERESTARTSYS,
              s\<lparr>mmio := wake_mmio w, signal_pending := True,
                events := events s @ map ctrl_read (mmio s # map wake_mmio (ws @ [w]))\<rparr>)"
    using a by (cases s) (simp add: t_def)
next
  assume r: "mbox_host_read K s buf count ws = Some (Inl ERESTARTSYS, s')"
  then have ok: "access_ok K buf count"
    by (auto simp: mbox_host_read_def split: if_splits)
  from r ok obtain b s1 where w: "wait_event_interruptible s ws = Some (b, s1)"
    by (auto simp: mbox_host_read_def split: option.splits)
  have "b \<and> s1 = s'"
  proof (cases b)
    case True
    with r ok w show ?thesis by (simp add: mbox_host_read_def)
  next
    case False
    with r ok w have "fst (read_loop s1 0 buf) = Inl ERESTARTSYS"
      by (auto simp: mbox_host_read_def split: prod.splits sum.splits)
    then have "ERESTARTSYS = EFAULT"
      by (intro read_loop_error [of s1 0 buf _ "snd (read_loop s1 0 buf)"]) (simp add: prod_eq_iff)
    then show ?thesis by simp
  qed
  with w have w': "wait_event_interruptible s ws = Some (True, s')" by simp
  from wait_events [OF w'] obtain rs where
    rs: "s' = s\<lparr>mmio := mmio s', signal_pending := signal_pending s',
                 events := events s @ map ctrl_read rs\<rparr>"
    and nr: "\<not> recv_ready (mmio s')" by auto
  show "\<exists>rs. s' = s\<lparr>mmio := mmio s', signal_pending := signal_pending s',
                       events := events s @ map ctrl_read rs\<rparr>"
    using rs by blast
  have ev: "events s' = events s @ map ctrl_read rs"
    by (subst rs) simp
  show "umem s' = umem s" by (subst rs) simp
  show "reg_writes (drop (length (events s)) (events s')) = []"
    by (simp add: ev)
  show "stores (drop (length (events s)) (events s')) = []"
    by (simp add: ev)
  show "\<not> recv_ready (mmio s')" by (rule nr)
  show "\<forall>r g count' ws'.
              recv_ready r \<and> access_ok K buf count'
              \<and> (\<forall>n<MBOX_NUM_DATA_REGS. umem s' (buf + n) \<noteq> None) \<longrightarrow>
              (\<exists>s''. mbox_host_read K (s'\<lparr>mmio := r, signal_pending := g\<rparr>) buf count' ws'
                        = Some (Inr MBOX_NUM_DATA_REGS, s'')
                    \<and> (\<forall>n<MBOX_NUM_DATA_REGS. umem s'' (buf + n) = Some (r (slot n))))"
    by (intro allI impI read_retry_ready) simp_all
qed

text \<open>The instance: a spurious wake, then a signal; the retry finds a frame.\<close>

theorem read_interrupted_touches_nothing_witness:
  "\<exists>s'. mbox_host_read ex_kernel ex_host 16 3 ([ex_idle] @ ex_signal # []) = Some (Inl ERESTARTSYS, s')
     \<and> umem s' = umem ex_host
     \<and> reg_writes (events s') = [] \<and> stores (events s') = []
     \<and> (\<exists>s''. mbox_host_read ex_kernel (s'\<lparr>mmio := ex_frame, signal_pending := False\<rparr>) 16 3 []
                 = Some (Inr 14, s'')
             \<and> umem s'' (16 + 1) = Some 4)"
proof -
  define s' where "s' = ex_host\<lparr>mmio := wake_mmio ex_signal, signal_pending := True,
     events := events ex_host @ map ctrl_read (mmio ex_host # map wake_mmio ([ex_idle] @ [ex_signal]))\<rparr>"
  have r: "mbox_host_read ex_kernel ex_host 16 3 ([ex_idle] @ ex_signal # []) = Some (Inl ERESTARTSYS, s')"
    unfolding s'_def
    using read_interrupted_touches_nothing
      [of ex_kernel 16 3 ex_host "[ex_idle]" ex_signal "[]", THEN conjunct1] ex_facts
    by simp
  note gen = read_interrupted_touches_nothing
      [of ex_kernel 16 3 ex_host "[ex_idle] @ ex_signal # []" _ _ s', THEN conjunct2, rule_format, OF r]
  have u: "umem s' = umem ex_host" using gen by blast
  have w: "reg_writes (drop (length (events ex_host)) (events s')) = []"
    and st: "stores (drop (length (events ex_host)) (events s')) = []" using gen by blast+
  have e0: "events ex_host = []" by (simp add: ex_host_def)
  have "\<forall>n<MBOX_NUM_DATA_REGS. umem s' (16 + n) \<noteq> None"
    using ex_facts(2) u by simp
  with gen ex_facts have "\<exists>s''. mbox_host_read ex_kernel (s'\<lparr>mmio := ex_frame, signal_pending := False\<rparr>) 16 3 []
                        = Some (Inr MBOX_NUM_DATA_REGS, s'')
                    \<and> (\<forall>n<MBOX_NUM_DATA_REGS. umem s'' (16 + n) = Some (ex_frame (slot n)))"
    by blast
  then obtain s'' where
    a: "mbox_host_read ex_kernel (s'\<lparr>mmio := ex_frame, signal_pending := False\<rparr>) 16 3 []
          = Some (Inr MBOX_NUM_DATA_REGS, s'')"
    and b: "\<forall>n<MBOX_NUM_DATA_REGS. umem s'' (16 + n) = Some (ex_frame (slot n))"
    by blast
  from b [rule_format, of 1] have "umem s'' (16 + 1) = Some (ex_frame (slot 1))"
    by (simp add: MBOX_NUM_DATA_REGS_def)
  moreover have "ex_frame (slot 1) = 4"
    by (simp add: ex_frame_def slot_def mbox_consts)
  ultimately have "umem s'' (16 + 1) = Some 4" by simp
  with a r u w st e0 show ?thesis
    by (auto simp: MBOX_NUM_DATA_REGS_def)
qed

subsection \<open>C6: the attention control operation\<close>

text \<open>
  C6, as amended. The attention operation returns 0 after exactly one register write, of
  the low byte of its parameter, at one offset that is none of the 14 payload slots read
  and write use and is not the control register, so \<open>SEND\<close> is not asserted; every
  other control code fails with \<open>EINVAL\<close> and leaves the state as it is, with no
  register write. The window has 16 data registers and read and write use 14 of them.
\<close>

theorem attention_byte_written_once_outside_payload:
  "fst (mbox_host_ioctl K s cmd param) = (if cmd = MBOX_HOST_IOCTL_ATN K then Inr 0 else Inl EINVAL)
   \<and> (\<exists>a. a \<notin> set (map slot [0..<MBOX_NUM_DATA_REGS]) \<and> a \<noteq> MBOX_BMC_CTRL
          \<and> snd (mbox_host_ioctl K s cmd param) =
              (if cmd = MBOX_HOST_IOCTL_ATN K
               then s\<lparr>mmio := (mmio s)(a := ucast param),
                      events := events s @ [Iowrite8 (ucast param) a]\<rparr>
               else s))
   \<and> MBOX_NUM_DATA_REGS + 2 = MBOX_NUM_REGS"
proof -
  have "15 \<notin> set (map slot [0..<MBOX_NUM_DATA_REGS])"
    by (auto simp add: slot_def mbox_consts) presburger
  moreover have "15 \<noteq> MBOX_BMC_CTRL"
    by (simp add: mbox_consts)
  moreover have "snd (mbox_host_ioctl K s cmd param) =
              (if cmd = MBOX_HOST_IOCTL_ATN K
               then s\<lparr>mmio := (mmio s)(15 := ucast param),
                      events := events s @ [Iowrite8 (ucast param) 15]\<rparr>
               else s)"
    by (simp add: mbox_host_ioctl_eq)
  ultimately have "\<exists>a. a \<notin> set (map slot [0..<MBOX_NUM_DATA_REGS]) \<and> a \<noteq> MBOX_BMC_CTRL
          \<and> snd (mbox_host_ioctl K s cmd param) =
              (if cmd = MBOX_HOST_IOCTL_ATN K
               then s\<lparr>mmio := (mmio s)(a := ucast param),
                      events := events s @ [Iowrite8 (ucast param) a]\<rparr>
               else s)"
    by blast
  moreover have "fst (mbox_host_ioctl K s cmd param)
      = (if cmd = MBOX_HOST_IOCTL_ATN K then Inr 0 else Inl EINVAL)"
    by (simp add: mbox_host_ioctl_eq)
  moreover have "MBOX_NUM_DATA_REGS + 2 = MBOX_NUM_REGS"
    by (simp add: mbox_consts)
  ultimately show ?thesis by blast
qed

text \<open>The instance: the attention code, and another code.\<close>

theorem attention_byte_written_once_outside_payload_witness:
  "fst (mbox_host_ioctl ex_kernel ex_host 1 0x1A5) = Inr 0
   \<and> fst (mbox_host_ioctl ex_kernel ex_host 2 0x1A5) = Inl EINVAL
   \<and> snd (mbox_host_ioctl ex_kernel ex_host 2 0x1A5) = ex_host"
  using attention_byte_written_once_outside_payload [of ex_kernel ex_host 1 "0x1A5"]
    attention_byte_written_once_outside_payload [of ex_kernel ex_host 2 "0x1A5"]
  by (auto simp add: ex_kernel_def)

text \<open>
  C6 as stated fails: the payload slots are 14 of 16 data registers, not all but one; and
  the byte goes to byte offset \<open>MBOX_DATA_0 + 15\<close>, which is the offset of none of the 16
  data registers (they lie at \<open>MBOX_DATA_0 + 4 * n\<close>) and falls between payload
  registers 3 and 4.
\<close>

theorem attention_offset_counterexample:
  "reg_writes (events (snd (mbox_host_ioctl ex_kernel ex_host (MBOX_HOST_IOCTL_ATN ex_kernel) 0xA5)))
     = [(15, 0xA5)]
   \<and> 15 \<notin> set (map slot [0..<MBOX_NUM_REGS])
   \<and> slot 3 < 15 \<and> 15 < slot 4
   \<and> MBOX_NUM_REGS - 1 \<noteq> MBOX_NUM_DATA_REGS"
proof -
  have "15 \<notin> set (map slot [0..<MBOX_NUM_REGS])"
    by (auto simp add: slot_def mbox_consts) presburger
  moreover have "slot 3 < 15 \<and> 15 < slot 4 \<and> MBOX_NUM_REGS - 1 \<noteq> MBOX_NUM_DATA_REGS"
    by (simp add: slot_def mbox_consts)
  moreover have "reg_writes (events (snd (mbox_host_ioctl ex_kernel ex_host
      (MBOX_HOST_IOCTL_ATN ex_kernel) 0xA5))) = [(15, 0xA5)]"
    by (simp add: mbox_host_ioctl_eq ex_host_def)
  ultimately show ?thesis by blast
qed

subsection \<open>C7: one notification source for the life of the instance\<close>



subsection \<open>C8: the readiness query\<close>

text \<open>
  C8. The readiness query first registers with the wait queue and only then reads the
  control register; it makes no register write, the register window after it is the one
  before it, and it reports \<open>POLLIN\<close> exactly when \<open>RECV\<close> reads set.
\<close>

theorem mbox_host_poll_registers_then_reads:
  "events (snd (mbox_host_poll s)) =
     events s @ [Poll_wait, Ioread8 MBOX_BMC_CTRL (mmio s MBOX_BMC_CTRL)]
   \<and> mmio (snd (mbox_host_poll s)) = mmio s
   \<and> (fst (mbox_host_poll s) AND POLLIN \<noteq> 0) = recv_ready (mmio s)
   \<and> fst (mbox_host_poll s) = (if recv_ready (mmio s) then POLLIN else 0)"
  by (simp add: mbox_host_poll_def mbox_inb_def poll_wait_def POLLIN_def recv_ready_def)

subsection \<open>C9: a successful read copies 14 bytes whatever the length asked for\<close>

text \<open>
  C9. Every read that succeeds returns 14 and has stored 14 bytes, at \<open>buf\<close> to
  \<open>buf + 13\<close> in this order, each the byte of its payload slot; the caller's \<open>count\<close>
  does not bound the copy, also when it is smaller than 14.
\<close>

theorem read_copies_full_frame_whatever_count:
  assumes "mbox_host_read K s buf count ws = Some (Inr n, s')"
  shows "n = MBOX_NUM_DATA_REGS
     \<and> map fst (stores (drop (length (events s)) (events s')))
         = map (\<lambda>n. buf + n) [0..<MBOX_NUM_DATA_REGS]
     \<and> (\<forall>i<MBOX_NUM_DATA_REGS. umem s' (buf + i) = Some (mmio s' (slot i)))"
proof -
  from assms have ok: "access_ok K buf count"
    by (auto simp: mbox_host_read_def split: if_splits)
  from assms ok obtain b s1 where w: "wait_event_interruptible s ws = Some (b, s1)"
    by (auto simp: mbox_host_read_def split: option.splits)
  from assms ok w have nb: "\<not> b"
    by (auto simp: mbox_host_read_def split: if_splits)
  obtain r2 s2 where l: "read_loop s1 0 buf = (r2, s2)" by (cases "read_loop s1 0 buf")
  with assms ok w nb obtain p where p: "r2 = Inr p"
    and n: "n = p - buf" and s': "s' = mbox_outb s2 MBOX_CTRL_RECV MBOX_BMC_CTRL"
    by (auto simp: mbox_host_read_def split: sum.splits)
  from l p have mapped: "\<forall>n<MBOX_NUM_DATA_REGS. umem s1 (buf + n) \<noteq> None"
    by (intro read_loop_Inr_mapped [of s1 buf p s2]) simp
  have "read_loop s1 0 (buf + 0) =
     ((if MBOX_NUM_DATA_REGS < MBOX_NUM_DATA_REGS then Inl EFAULT else Inr (buf + MBOX_NUM_DATA_REGS)),
      s1\<lparr>umem := drained_umem (umem s1) (mmio s1) buf 0 MBOX_NUM_DATA_REGS,
        events := events s1 @ drain_events (mmio s1) buf 0 MBOX_NUM_DATA_REGS @
          (if MBOX_NUM_DATA_REGS < MBOX_NUM_DATA_REGS
           then [Ioread8 (slot MBOX_NUM_DATA_REGS) (mmio s1 (slot MBOX_NUM_DATA_REGS))] else [])\<rparr>)"
    using mapped by (intro read_loop_run) simp_all
  with l p have pv: "p = buf + MBOX_NUM_DATA_REGS"
    and s2: "s2 = s1\<lparr>umem := drained_umem (umem s1) (mmio s1) buf 0 MBOX_NUM_DATA_REGS,
        events := events s1 @ drain_events (mmio s1) buf 0 MBOX_NUM_DATA_REGS\<rparr>"
    by simp_all
  from wait_events [OF w] obtain rs where
    s1: "s1 = s\<lparr>mmio := mmio s1, signal_pending := signal_pending s1,
                 events := events s @ map ctrl_read rs\<rparr>" by auto
  have e1: "events s1 = events s @ map ctrl_read rs" by (subst s1) simp
  have ev: "events s' = events s @ map ctrl_read rs
      @ drain_events (mmio s1) buf 0 MBOX_NUM_DATA_REGS @ [Iowrite8 MBOX_CTRL_RECV MBOX_BMC_CTRL]"
    by (simp add: s' s2 e1 mbox_outb_def)
  have um: "umem s' = drained_umem (umem s1) (mmio s1) buf 0 MBOX_NUM_DATA_REGS"
    by (simp add: s' s2 mbox_outb_def)
  have mm: "\<forall>i<MBOX_NUM_DATA_REGS. mmio s' (slot i) = mmio s1 (slot i)"
  proof (intro allI impI)
    fix i assume "i < MBOX_NUM_DATA_REGS"
    then have "MBOX_BMC_CTRL \<noteq> slot i" using slot_neq_ctrl [of i] by simp
    then show "mmio s' (slot i) = mmio s1 (slot i)"
      by (simp add: s' s2 mbox_outb_def iowrite8_other)
  qed
  have "n = MBOX_NUM_DATA_REGS" using n pv by simp
  moreover have "map fst (stores (drop (length (events s)) (events s')))
         = map (\<lambda>n. buf + n) [0..<MBOX_NUM_DATA_REGS]"
    by (simp add: ev drain_events_projections comp_def)
  moreover have "\<forall>i<MBOX_NUM_DATA_REGS. umem s' (buf + i) = Some (mmio s' (slot i))"
    using mm by (simp add: um drained_umem_def)
  ultimately show ?thesis by blast
qed

text \<open>The instance: a read with \<open>count = 3\<close> stores 14 bytes.\<close>

theorem read_copies_full_frame_whatever_count_witness:
  "\<exists>s'. mbox_host_read ex_kernel (ex_host\<lparr>mmio := ex_frame\<rparr>) 16 3 [] = Some (Inr 14, s')
     \<and> map fst (stores (events s')) = map (\<lambda>n. 16 + n) [0..<14]
     \<and> umem s' (16 + 13) = Some 52"
proof -
  define t where "t = ex_host\<lparr>mmio := ex_frame\<rparr>"
  define s' where "s' = t\<lparr>mmio := iowrite8 MBOX_CTRL_RECV MBOX_BMC_CTRL (mmio t),
                   umem := drained_umem (umem t) (mmio t) 16 0 MBOX_NUM_DATA_REGS,
                   events := events t @ ctrl_read (mmio t)
                               # drain_events (mmio t) 16 0 MBOX_NUM_DATA_REGS
                               @ [Iowrite8 MBOX_CTRL_RECV MBOX_BMC_CTRL]\<rparr>"
  have rdy: "recv_ready (mmio t)" "\<forall>n<MBOX_NUM_DATA_REGS. umem t (16 + n) \<noteq> None"
    using ex_facts by (simp_all add: t_def)
  from read_ready_run [OF ex_facts(1) rdy(1) le_refl, of "[]"] rdy(2)
  have r: "mbox_host_read ex_kernel t 16 3 [] = Some (Inr MBOX_NUM_DATA_REGS, s')"
    by (simp add: s'_def)
  note inst = read_copies_full_frame_whatever_count [OF r]
  from inst have "map fst (stores (drop (length (events t)) (events s')))
         = map (\<lambda>n. 16 + n) [0..<MBOX_NUM_DATA_REGS]" by blast
  moreover have "events t = []" by (simp add: t_def ex_host_def)
  ultimately have st: "map fst (stores (events s')) = map (\<lambda>n. 16 + n) [0..<14]"
    by (simp add: MBOX_NUM_DATA_REGS_def)
  from inst [THEN conjunct2, THEN conjunct2, rule_format, of 13]
  have "umem s' (16 + 13) = Some (mmio s' (slot 13))"
    by (simp add: MBOX_NUM_DATA_REGS_def)
  moreover have "mmio s' (slot 13) = 52"
    by (simp add: s'_def t_def iowrite8_def ex_frame_def slot_def mbox_consts)
  ultimately have "umem s' (16 + 13) = Some 52" by simp
  with r st show ?thesis
    unfolding t_def by (auto simp: MBOX_NUM_DATA_REGS_def)
qed

subsection \<open>C10: a fault while draining\<close>

text \<open>
  C10. When the wait has ended with \<open>RECV\<close> set and the store of the byte of payload
  slot \<open>k\<close> faults (the first \<open>k\<close> destination bytes are mapped, the next is not), read
  returns \<open>EFAULT\<close>; it has made no register write, so \<open>RECV\<close> is still set and a later
  read with a valid buffer consumes the message; the first \<open>k\<close> bytes are in the buffer
  and stay there.
\<close>

theorem read_fault_keeps_message_pending:
  assumes ok: "access_ok K buf count"
    and w: "wait_event_interruptible s ws = Some (False, s1)"
    and k: "k < MBOX_NUM_DATA_REGS"
    and mapped: "\<forall>n<k. umem s (buf + n) \<noteq> None"
    and stop: "umem s (buf + k) = None"
  shows "\<exists>s'. mbox_host_read K s buf count ws = Some (Inl EFAULT, s')
     \<and> s' = s1\<lparr>umem := drained_umem (umem s) (mmio s1) buf 0 k,
               events := events s1 @ drain_events (mmio s1) buf 0 k
                           @ [Ioread8 (slot k) (mmio s1 (slot k))]\<rparr>
     \<and> reg_writes (drop (length (events s)) (events s')) = []
     \<and> recv_ready (mmio s')
     \<and> stores (drop (length (events s)) (events s')) = map (\<lambda>n. (buf + n, mmio s' (slot n))) [0..<k]
     \<and> (\<forall>n<k. umem s' (buf + n) = Some (mmio s' (slot n)))
     \<and> (\<forall>buf2 count2 ws2.
           access_ok K buf2 count2 \<and> (\<forall>n<MBOX_NUM_DATA_REGS. umem s' (buf2 + n) \<noteq> None) \<longrightarrow>
           (\<exists>s''. mbox_host_read K s' buf2 count2 ws2 = Some (Inr MBOX_NUM_DATA_REGS, s'')))"
proof -
  from wait_events [OF w] obtain rs where
    s1: "s1 = s\<lparr>mmio := mmio s1, signal_pending := signal_pending s1,
                 events := events s @ map ctrl_read rs\<rparr>"
    and rdy: "recv_ready (mmio s1)" by auto
  have u1: "umem s1 = umem s" by (subst s1) simp
  have e1: "events s1 = events s @ map ctrl_read rs" by (subst s1) simp
  define s' where "s' = s1\<lparr>umem := drained_umem (umem s) (mmio s1) buf 0 k,
               events := events s1 @ drain_events (mmio s1) buf 0 k
                           @ [Ioread8 (slot k) (mmio s1 (slot k))]\<rparr>"
  have "read_loop s1 0 (buf + 0) =
     ((if k < MBOX_NUM_DATA_REGS then Inl EFAULT else Inr (buf + k)),
      s1\<lparr>umem := drained_umem (umem s1) (mmio s1) buf 0 k,
        events := events s1 @ drain_events (mmio s1) buf 0 k @
          (if k < MBOX_NUM_DATA_REGS then [Ioread8 (slot k) (mmio s1 (slot k))] else [])\<rparr>)"
    using k mapped stop by (intro read_loop_run) (simp_all add: u1)
  with k have l: "read_loop s1 0 buf = (Inl EFAULT, s')"
    by (simp add: s'_def u1)
  have r: "mbox_host_read K s buf count ws = Some (Inl EFAULT, s')"
    using ok w l by (simp add: mbox_host_read_def)
  have m': "mmio s' = mmio s1" by (simp add: s'_def)
  have ev: "drop (length (events s)) (events s') =
      map ctrl_read rs @ drain_events (mmio s1) buf 0 k @ [Ioread8 (slot k) (mmio s1 (slot k))]"
    by (simp add: s'_def e1)
  have "reg_writes (drop (length (events s)) (events s')) = []"
    by (simp add: ev drain_events_projections)
  moreover have "stores (drop (length (events s)) (events s'))
      = map (\<lambda>n. (buf + n, mmio s' (slot n))) [0..<k]"
    by (simp add: ev drain_events_projections m')
  moreover have "\<forall>n<k. umem s' (buf + n) = Some (mmio s' (slot n))"
    by (simp add: s'_def drained_umem_def)
  moreover have "\<forall>buf2 count2 ws2.
           access_ok K buf2 count2 \<and> (\<forall>n<MBOX_NUM_DATA_REGS. umem s' (buf2 + n) \<noteq> None) \<longrightarrow>
           (\<exists>s''. mbox_host_read K s' buf2 count2 ws2 = Some (Inr MBOX_NUM_DATA_REGS, s''))"
  proof (intro allI impI)
    fix buf2 count2 ws2
    assume a: "access_ok K buf2 count2 \<and> (\<forall>n<MBOX_NUM_DATA_REGS. umem s' (buf2 + n) \<noteq> None)"
    from rdy m' have "recv_ready (mmio s')" by simp
    from read_ready_run [OF conjunct1 [OF a] this le_refl, of ws2] a
    show "\<exists>s''. mbox_host_read K s' buf2 count2 ws2 = Some (Inr MBOX_NUM_DATA_REGS, s'')"
      by simp
  qed
  ultimately show ?thesis
    using r rdy m' s'_def by auto
qed

text \<open>The instance: a buffer whose sixth byte is unmapped; five bytes stay written.\<close>

theorem read_fault_keeps_message_pending_witness:
  "\<exists>s'. mbox_host_read ex_kernel (ex_host\<lparr>mmio := ex_frame\<rparr>) 251 14 [] = Some (Inl EFAULT, s')
     \<and> reg_writes (events s') = []
     \<and> recv_ready (mmio s')
     \<and> stores (events s') = [(251, 0), (252, 4), (253, 8), (254, 12), (255, 16)]
     \<and> map (umem s') [251, 252, 253, 254, 255, 256] = [Some 0, Some 4, Some 8, Some 12, Some 16, None]"
proof -
  define t where "t = ex_host\<lparr>mmio := ex_frame\<rparr>"
  have ok: "access_ok ex_kernel 251 14" by (simp add: ex_kernel_def)
  have "recv_ready (mmio t)" using ex_facts by (simp add: t_def)
  then have w: "wait_event_interruptible t [] = Some (False, t\<lparr>events := events t @ [ctrl_read (mmio t)]\<rparr>)"
    by (rule wait_ready)
  have k: "(5::nat) < MBOX_NUM_DATA_REGS" "\<forall>n<5. umem t (251 + n) \<noteq> None" "umem t (251 + 5) = None"
    by (simp_all add: t_def ex_host_def mbox_consts)
  from read_fault_keeps_message_pending [OF ok w k]
  obtain s' where r: "mbox_host_read ex_kernel t 251 14 [] = Some (Inl EFAULT, s')"
    and s': "s' = t\<lparr>events := events t @ [ctrl_read (mmio t)]\<rparr>
       \<lparr>umem := drained_umem (umem t) (mmio (t\<lparr>events := events t @ [ctrl_read (mmio t)]\<rparr>)) 251 0 5,
               events := events (t\<lparr>events := events t @ [ctrl_read (mmio t)]\<rparr>)
                  @ drain_events (mmio (t\<lparr>events := events t @ [ctrl_read (mmio t)]\<rparr>)) 251 0 5
                  @ [Ioread8 (slot 5) (mmio (t\<lparr>events := events t @ [ctrl_read (mmio t)]\<rparr>) (slot 5))]\<rparr>"
    and rw: "reg_writes (drop (length (events t)) (events s')) = []"
    and rr: "recv_ready (mmio s')"
    and st: "stores (drop (length (events t)) (events s')) = map (\<lambda>n. (251 + n, mmio s' (slot n))) [0..<5]"
    by blast
  have e0: "events t = []" by (simp add: t_def ex_host_def)
  have m: "mmio s' = ex_frame" by (simp add: s' t_def)
  have five: "[0..<5] = [0, 1, 2, 3, 4]" by (simp add: upt_rec)
  have "stores (events s') = [(251, 0), (252, 4), (253, 8), (254, 12), (255, 16)]"
    using st by (simp add: e0 m five ex_frame_def slot_def mbox_consts)
  moreover have "map (umem s') [251, 252, 253, 254, 255, 256]
      = [Some 0, Some 4, Some 8, Some 12, Some 16, None]"
    by (simp add: s' t_def drained_umem_def ex_frame_def slot_def ex_host_def mbox_consts)
  ultimately show ?thesis
    using r rw rr e0 unfolding t_def by auto
qed

end
